theory Spec2Isabelle
  imports Complex_Main "HOL-Library.Word" "HOL-Library.Multiset"
begin

section \<open>The ZMPT101B driver: median filter, acquisition and RMS estimate\<close>

text \<open>
  A shallow embedding of \<^verbatim>\<open>components/zmpt101b/zmpt101b.c\<close>.

  Samples are \<^verbatim>\<open>uint16_t\<close>, modelled as \<open>16 word\<close>. A C array together with its
  \<^verbatim>\<open>length\<close> argument is a list. Indices and sizes (\<^verbatim>\<open>size_t\<close>) are natural numbers:
  a buffer of \<open>n\<close> samples occupies \<open>2 * n\<close> bytes of a 32-bit address space, so
  \<open>n < 2 ^ 31\<close>, and every index expression of the filter (\<open>window_size + 1\<close>,
  \<open>i + half_window\<close>, \<open>window_size * 2\<close>) is computed only after the guard
  \<open>window_size \<le> length\<close> and stays below \<open>2 ^ 32\<close>: no \<^verbatim>\<open>size_t\<close> operation wraps.
\<close>

type_synonym uint8 = "8 word"
type_synonym uint16 = "16 word"
type_synonym uint32 = "32 word"

subsection \<open>Heap calls\<close>

text \<open>
  \<^verbatim>\<open>malloc\<close> and \<^verbatim>\<open>calloc\<close> may return \<^verbatim>\<open>NULL\<close>. Whether a call succeeds is an input of
  the model; every heap call made is recorded, in order, with its arguments and
  whether it succeeded.
\<close>

datatype heap_event =
    Malloc nat bool
  | Calloc nat nat bool
  | Free_window
  | Free_buffer

subsection \<open>\<^verbatim>\<open>median_filter_in_place\<close>\<close>

text \<open>
  The state the function works on: the caller's array \<^verbatim>\<open>data\<close>, the two output
  cells \<^verbatim>\<open>*min_value\<close> and \<^verbatim>\<open>*max_value\<close>, the returned \<^verbatim>\<open>bool\<close> and the heap calls.
\<close>

record filter_state =
  data :: "uint16 list"
  min_value :: uint16
  max_value :: uint16
  ok :: bool
  allocs :: "heap_event list"

text \<open>
  The inner \<^verbatim>\<open>while (k > 0 && window[k - 1] > key)\<close> loop of the insertion sort,
  followed by \<^verbatim>\<open>window[k] = key\<close>.
\<close>

fun insert_key :: "uint16 list \<Rightarrow> nat \<Rightarrow> uint16 \<Rightarrow> uint16 list" where
  "insert_key window 0 key = window[0 := key]"
| "insert_key window (Suc k) key =
     (if window ! k > key then insert_key (window[Suc k := window ! k]) k key
      else window[Suc k := key])"

text \<open>The outer loop \<^verbatim>\<open>for (j = 1; j < current_window_size; ++j)\<close>.\<close>

definition insertion_sort :: "nat \<Rightarrow> uint16 list \<Rightarrow> uint16 list" where
  "insertion_sort n window = fold (\<lambda>j w. insert_key w j (w ! j)) [1..<n] window"

text \<open>
  One iteration of the loop over \<open>i\<close>. The scratch array \<^verbatim>\<open>window\<close> is the copied
  slice: \<^verbatim>\<open>memcpy\<close> fills its first \<open>current_window_size\<close> cells from the array as
  it stands at this moment, and no other cell of the scratch array is read.
\<close>

definition filter_step :: "nat \<Rightarrow> nat \<Rightarrow> nat \<Rightarrow> filter_state \<Rightarrow> filter_state" where
  "filter_step len half_window i s =
     (let start = (if i < half_window then 0 else i - half_window);
          stop = (if i + half_window \<ge> len then len - 1 else i + half_window);
          current_window_size = stop - start + 1;
          window = insertion_sort current_window_size
                     (take current_window_size (drop start (data s)));
          d = (data s)[i := window ! (current_window_size div 2)];
          mx = (if d ! i > max_value s then d ! i else max_value s);
          mn = (if d ! i < min_value s then d ! i else min_value s)
      in s\<lparr>data := d, min_value := mn, max_value := mx\<rparr>)"

text \<open>
  The function. \<open>malloc_ok\<close> says whether the \<^verbatim>\<open>malloc\<close> of the scratch array
  succeeds; \<open>mn\<close> and \<open>mx\<close> are the contents of the output cells at the call.
  \<^verbatim>\<open>*max_value = !*min_value\<close> is C's logical negation: 1 for 0 and 0 otherwise.
\<close>

definition median_filter_in_place ::
  "bool \<Rightarrow> uint16 list \<Rightarrow> nat \<Rightarrow> uint16 \<Rightarrow> uint16 \<Rightarrow> filter_state" where
  "median_filter_in_place malloc_ok d window_size mn mx =
     (if window_size > length d
      then \<lparr>data = d, min_value = mn, max_value = mx, ok = False, allocs = []\<rparr>
      else
        let window_size = (if window_size mod 2 = 0 then window_size + 1 else window_size) in
        if \<not> malloc_ok
        then \<lparr>data = d, min_value = mn, max_value = mx, ok = False,
               allocs = [Malloc (window_size * 2) False]\<rparr>
        else
          let mn0 = 0xFFFF;
              mx0 = (if mn0 = 0 then 1 else 0);
              half_window = window_size div 2;
              s = fold (filter_step (length d) half_window) [0..<length d]
                    \<lparr>data = d, min_value = mn0, max_value = mx0, ok = True,
                     allocs = [Malloc (window_size * 2) True]\<rparr>
          in s\<lparr>allocs := allocs s @ [Free_window]\<rparr>)"

subsection \<open>The reference median of the specification\<close>

text \<open>
  The specification's words for one filter step: the slice from
  \<open>max(0, i - halfWindow)\<close> to \<open>min(length - 1, i + halfWindow)\<close> of a buffer is
  sorted, and its element at index \<open>currentSize / 2\<close> is the new value of index \<open>i\<close>.
\<close>

definition window_median :: "uint16 list \<Rightarrow> nat \<Rightarrow> nat \<Rightarrow> uint16" where
  "window_median buf half_window i =
     (let start = nat (max 0 (int i - int half_window));
          stop = min (length buf - 1) (i + half_window);
          current_size = stop - start + 1
      in sort (take current_size (drop start buf)) ! (current_size div 2))"

subsection \<open>Double-precision arithmetic\<close>

text \<open>
  The RMS expression is evaluated in \<^verbatim>\<open>double\<close>. A finite double is a rational number;
  an operation returns the exact result rounded to 53 significant bits, ties to the
  even significand (IEEE 754 binary64, round to nearest). The operands here are built
  from differences of 16-bit values, so exponents stay far inside the normal range and
  neither overflow nor subnormal numbers arise.
\<close>

definition round_half_even :: "rat \<Rightarrow> int" where
  "round_half_even x =
     (let f = \<lfloor>x\<rfloor>; r = x - of_int f
      in if r < 1 / 2 then f else if 1 / 2 < r then f + 1 else if even f then f else f + 1)"

text \<open>The binary exponent of a positive number: \<open>2 ^ e \<le> x < 2 ^ (e + 1)\<close>.\<close>

function expo_up :: "rat \<Rightarrow> int" where
  "expo_up x = (if 2 \<le> x then expo_up (x / 2) + 1 else 0)"
  by pat_completeness auto
termination
proof (relation "measure (\<lambda>x. nat \<lfloor>x\<rfloor>)")
  show "wf (measure (\<lambda>x::rat. nat \<lfloor>x\<rfloor>))" by simp
next
  fix x :: rat
  assume "2 \<le> x"
  then have "x / 2 \<le> x - 1" by simp
  then have "\<lfloor>x / 2\<rfloor> \<le> \<lfloor>x - 1\<rfloor>" by (rule floor_mono)
  moreover have "1 \<le> \<lfloor>x\<rfloor>" using \<open>2 \<le> x\<close> by (simp add: le_floor_iff)
  ultimately show "(x / 2, x) \<in> measure (\<lambda>x. nat \<lfloor>x\<rfloor>)" by simp
qed

function expo_down :: "rat \<Rightarrow> int" where
  "expo_down x = (if 0 < x \<and> x < 1 then expo_down (2 * x) - 1 else 0)"
  by pat_completeness auto
termination
proof (relation "measure (\<lambda>x. nat \<lceil>1 / x\<rceil>)")
  show "wf (measure (\<lambda>x::rat. nat \<lceil>1 / x\<rceil>))" by simp
next
  fix x :: rat
  assume a: "0 < x \<and> x < 1"
  then have y: "1 < 1 / x" by simp
  have "\<lceil>1 / (2 * x)\<rceil> < \<lceil>1 / x\<rceil>"
  proof (cases "1 / x \<le> 2")
    case True
    then have "1 / (2 * x) \<le> 1" using a by (simp add: field_simps)
    then have "\<lceil>1 / (2 * x)\<rceil> \<le> 1" by (simp only: ceiling_le_one)
    moreover have "1 < \<lceil>1 / x\<rceil>" using y by (simp only: one_less_ceiling)
    ultimately show ?thesis by linarith
  next
    case False
    then have "1 / (2 * x) \<le> 1 / x - 1" using a by (simp add: field_simps)
    then have "\<lceil>1 / (2 * x)\<rceil> \<le> \<lceil>1 / x - 1\<rceil>" by (rule ceiling_mono)
    then show ?thesis by simp
  qed
  moreover have "0 < \<lceil>1 / x\<rceil>"
  proof -
    have "1 < \<lceil>1 / x\<rceil>" using y by (simp only: one_less_ceiling)
    then show ?thesis by linarith
  qed
  ultimately have "nat \<lceil>1 / (2 * x)\<rceil> < nat \<lceil>1 / x\<rceil>" by (simp only: nat_mono_iff)
  then show "(2 * x, x) \<in> measure (\<lambda>x. nat \<lceil>1 / x\<rceil>)" by simp
qed

definition pow2 :: "int \<Rightarrow> rat" where
  "pow2 k = (if 0 \<le> k then 2 ^ nat k else 1 / 2 ^ nat (- k))"

text \<open>Rounding an exact result to the nearest double.\<close>

definition to_double :: "rat \<Rightarrow> rat" where
  "to_double x =
     (if x = 0 then 0
      else let e = (if 1 \<le> \<bar>x\<bar> then expo_up \<bar>x\<bar> else expo_down \<bar>x\<bar>);
               ulp = pow2 (e - 52)
           in of_int (round_half_even (x / ulp)) * ulp)"

definition double_div :: "rat \<Rightarrow> rat \<Rightarrow> rat" where
  "double_div x y = to_double (x / y)"

text \<open>C's \<^verbatim>\<open>round\<close>: to the nearest integer, halfway cases away from zero.\<close>

definition c_round :: "rat \<Rightarrow> int" where
  "c_round x = (if 0 \<le> x then \<lfloor>x + 1 / 2\<rfloor> else - \<lfloor>- x + 1 / 2\<rfloor>)"

subsection \<open>The RMS estimate of \<^verbatim>\<open>zmpt101b_read_voltage\<close>\<close>

text \<open>
  \<^verbatim>\<open>esp_adc_cal_raw_to_voltage\<close> belongs to ESP-IDF: it takes a \<^verbatim>\<open>uint32_t\<close> reading and
  returns \<^verbatim>\<open>uint32_t\<close> millivolts. With the characteristics fixed it is a function, a
  parameter of the model. The driver passes a \<^verbatim>\<open>uint16_t\<close> and stores the result in a
  \<^verbatim>\<open>const uint16_t\<close>.
\<close>

definition raw_to_millivolts :: "(uint32 \<Rightarrow> uint32) \<Rightarrow> uint16 \<Rightarrow> uint16" where
  "raw_to_millivolts raw_to_voltage raw = ucast (raw_to_voltage (ucast raw))"

text \<open>
  \<^verbatim>\<open>((voltage_max - voltage_min) / 2.0) / 1.4142135\<close>: the difference is an \<^verbatim>\<open>int\<close>
  (both operands are promoted), converted to \<^verbatim>\<open>double\<close> exactly; the literal is the
  double nearest to 1.4142135.
\<close>

definition rms_double :: "int \<Rightarrow> rat" where
  "rms_double diff =
     double_div (double_div (of_int diff) 2) (to_double (14142135 / 10000000))"

text \<open>
  \<^verbatim>\<open>*rmsVoltage = round(...)\<close>: the rounded double is converted to \<^verbatim>\<open>uint16_t\<close>. C
  defines that conversion only when the value fits the type; \<open>None\<close> is the undefined
  case.
\<close>

definition rms_estimate :: "(uint32 \<Rightarrow> uint32) \<Rightarrow> uint16 \<Rightarrow> uint16 \<Rightarrow> uint16 option" where
  "rms_estimate raw_to_voltage mn mx =
     (let voltage_min = raw_to_millivolts raw_to_voltage mn;
          voltage_max = raw_to_millivolts raw_to_voltage mx;
          r = c_round (rms_double (uint voltage_max - uint voltage_min))
      in if 0 \<le> r \<and> r < 65536 then Some (word_of_int r) else None)"

text \<open>
  The specification's formula, in exact arithmetic:
  \<open>((maxMv - minMv) / 2) / 1.4142135\<close>.
\<close>

definition rms_formula :: "uint16 \<Rightarrow> uint16 \<Rightarrow> rat" where
  "rms_formula min_mv max_mv =
     ((of_int (uint max_mv) - of_int (uint min_mv)) / 2) / (14142135 / 10000000)"

text \<open>
  The claim that the result is in whole volts rather than millivolts, in its own words:
  a millivolt figure expressed in whole volts is that figure divided by 1000 and rounded.
\<close>

definition whole_volts :: "rat \<Rightarrow> int" where
  "whole_volts millivolts = round (millivolts / 1000)"

subsection \<open>Acquisition\<close>

datatype esp_err = ESP_OK | ESP_FAIL | ESP_ERR_NO_MEM | ESP_ERR_INVALID_ARG | ESP_ERR_INVALID_SIZE

text \<open>
  The constants of \<^verbatim>\<open>zmpt101b.h\<close>. \<^verbatim>\<open>I2S_READ_BUFFER_16B\<close> is the macro
  \<^verbatim>\<open>( DMA_BUFFER_LEN / sizeof(uint16_t) ) * 2\<close>, which has no outer parentheses; at each
  of its uses in the driver the expansion parses as the product it looks like
  (\<^verbatim>\<open>I2S_READ_BUFFER_16B * 2 - total_bytes_read\<close> is \<open>1024 * 2 - total_bytes_read\<close>).
\<close>

definition DMA_BUFFER_LEN :: nat where
  "DMA_BUFFER_LEN = 1024"

definition I2S_READ_BUFFER_16B :: nat where
  "I2S_READ_BUFFER_16B = (DMA_BUFFER_LEN div 2) * 2"

text \<open>
  \<^verbatim>\<open>i2s_read\<close> belongs to ESP-IDF. One call is answered by the peripheral with a status
  and the bytes it has ready; the call stores at most \<open>len\<close> of them at offset \<open>dest\<close>
  of the buffer and reports how many it stored. The answers of successive calls are an
  input of the model.
\<close>

type_synonym i2s_reply = "esp_err \<times> uint8 list"

definition i2s_read :: "i2s_reply \<Rightarrow> uint8 list \<Rightarrow> nat \<Rightarrow> nat \<Rightarrow> esp_err \<times> uint8 list \<times> nat" where
  "i2s_read reply mem dest len =
     (let got = take len (snd reply)
      in (fst reply, take dest mem @ got @ drop (dest + length got) mem, length got))"

text \<open>
  The \<^verbatim>\<open>do ... while ((total_bytes_read / 2) < I2S_READ_BUFFER_16B)\<close> loop. Each
  iteration consumes one answer. \<^verbatim>\<open>i2s_read\<close> is called with \<^verbatim>\<open>portMAX_DELAY\<close>: when no
  answer is left the call blocks for ever, and the loop never returns.
\<close>

datatype read_outcome =
    Never_returns
  | Read_error "i2s_reply list"
  | Buffer_full "uint8 list" "i2s_reply list"

fun read_loop :: "i2s_reply list \<Rightarrow> uint8 list \<Rightarrow> nat \<Rightarrow> read_outcome" where
  "read_loop [] mem total_bytes_read = Never_returns"
| "read_loop (reply # rest) mem total_bytes_read =
     (case i2s_read reply mem total_bytes_read (I2S_READ_BUFFER_16B * 2 - total_bytes_read) of
        (ret, mem', bytes_read) \<Rightarrow>
          if ret \<noteq> ESP_OK then Read_error rest
          else
            let total_bytes_read = total_bytes_read + bytes_read in
            if total_bytes_read div 2 < I2S_READ_BUFFER_16B
            then read_loop rest mem' total_bytes_read
            else Buffer_full mem' rest)"

text \<open>
  The buffer is an array of \<^verbatim>\<open>uint16_t\<close> filled bytewise; the ESP32 is little-endian, so
  the sample at index \<open>k\<close> has its low byte at offset \<open>2 * k\<close>.
\<close>

fun samples_of :: "uint8 list \<Rightarrow> uint16 list" where
  "samples_of (lo # hi # rest) = word_cat hi lo # samples_of rest"
| "samples_of _ = []"

subsection \<open>\<^verbatim>\<open>zmpt101b_read_voltage\<close>\<close>

text \<open>
  What the call depends on: whether \<^verbatim>\<open>calloc\<close> of the sample buffer and \<^verbatim>\<open>malloc\<close> of
  the filter window succeed, the answers of the peripheral, and the calibration curve.
  The channel argument is used in a log line only.
\<close>

record adc_env =
  buffer_alloc_ok :: bool
  window_alloc_ok :: bool
  i2s_replies :: "i2s_reply list"
  raw_to_voltage :: "uint32 \<Rightarrow> uint32"

text \<open>
  What the call leaves: the returned \<^verbatim>\<open>esp_err_t\<close>, the cell \<^verbatim>\<open>*rmsVoltage\<close> (set to 0
  on entry), the heap calls made, and the answers of the peripheral not consumed.
\<close>

record read_result =
  esp_ret :: esp_err
  rmsVoltage :: uint16
  heap_calls :: "heap_event list"
  unread :: "i2s_reply list"

datatype 'a outcome = Returns 'a | Blocks | Undefined

text \<open>
  The function, without the \<^verbatim>\<open>DEBUG_EXTRA_INFO\<close> blocks (the macro is commented out in
  the header). The value returned by \<^verbatim>\<open>median_filter_in_place\<close> is not looked at.
\<close>

definition zmpt101b_read_voltage :: "adc_env \<Rightarrow> read_result outcome" where
  "zmpt101b_read_voltage env =
     (if \<not> buffer_alloc_ok env
      then Returns \<lparr>esp_ret = ESP_ERR_NO_MEM, rmsVoltage = 0,
                     heap_calls = [Calloc I2S_READ_BUFFER_16B 2 False],
                     unread = i2s_replies env\<rparr>
      else
        case read_loop (i2s_replies env) (replicate (I2S_READ_BUFFER_16B * 2) 0) 0 of
          Never_returns \<Rightarrow> Blocks
        | Read_error rest \<Rightarrow>
            Returns \<lparr>esp_ret = ESP_ERR_INVALID_SIZE, rmsVoltage = 0,
                      heap_calls = [Calloc I2S_READ_BUFFER_16B 2 True, Free_buffer],
                      unread = rest\<rparr>
        | Buffer_full mem rest \<Rightarrow>
            (let f = median_filter_in_place (window_alloc_ok env) (samples_of mem) 10 0 0
             in case rms_estimate (raw_to_voltage env) (min_value f) (max_value f) of
                  None \<Rightarrow> Undefined
                | Some r \<Rightarrow>
                    Returns \<lparr>esp_ret = ESP_OK, rmsVoltage = r,
                              heap_calls = Calloc I2S_READ_BUFFER_16B 2 True # allocs f
                                           @ [Free_buffer],
                              unread = rest\<rparr>))"

subsection \<open>A two-level capture\<close>

text \<open>
  A concrete run, used to evaluate the whole call: the peripheral delivers, in one
  answer, 512 samples of raw code 1000 followed by 512 samples of raw code 5000 (low
  byte first), both allocations succeed, and the calibration curve is the identity.
\<close>

definition two_level_bytes :: "uint8 list" where
  "two_level_bytes = concat (replicate 512 [0xE8, 0x03]) @ concat (replicate 512 [0x88, 0x13])"

definition two_level_env :: adc_env where
  "two_level_env =
     \<lparr>buffer_alloc_ok = True, window_alloc_ok = True,
      i2s_replies = [(ESP_OK, two_level_bytes)], raw_to_voltage = (\<lambda>x. x)\<rparr>"

section \<open>The insertion sort sorts\<close>

lemma insert_key_length [simp]: "length (insert_key w k key) = length w"
  by (induction k arbitrary: w) auto

lemma insert_key_drop: "drop (Suc k) (insert_key w k key) = drop (Suc k) w"
proof (induction k arbitrary: w)
  case 0
  show ?case by (simp add: drop_update_cancel)
next
  case (Suc k)
  show ?case
  proof (cases "w ! k > key")
    case True
    have "drop (Suc (Suc k)) (insert_key (w[Suc k := w ! k]) k key)
          = drop 1 (drop (Suc k) (insert_key (w[Suc k := w ! k]) k key))" by simp
    also have "\<dots> = drop 1 (drop (Suc k) (w[Suc k := w ! k]))" by (simp only: Suc.IH)
    also have "\<dots> = drop (Suc (Suc k)) w" by (simp add: drop_update_cancel)
    finally show ?thesis using True by simp
  next
    case False
    then show ?thesis by (simp add: drop_update_cancel)
  qed
qed

lemma insert_key_nth_Suc:
  assumes "Suc k < length w"
  shows "insert_key w k key ! Suc k = w ! Suc k"
proof -
  have "insert_key w k key ! Suc k = drop (Suc k) (insert_key w k key) ! 0"
    using assms by simp
  also have "\<dots> = drop (Suc k) w ! 0" by (simp only: insert_key_drop)
  also have "\<dots> = w ! Suc k" using assms by simp
  finally show ?thesis .
qed

lemma insert_key_mset:
  "k < length w \<Longrightarrow> mset (take (Suc k) (insert_key w k key)) = add_mset key (mset (take k w))"
proof (induction k arbitrary: w)
  case 0
  then show ?case by (cases w) auto
next
  case (Suc k)
  show ?case
  proof (cases "w ! k > key")
    case True
    let ?w = "w[Suc k := w ! k]"
    let ?r = "insert_key ?w k key"
    have len: "Suc k < length ?r" using Suc.prems by simp
    have "take (Suc (Suc k)) ?r = take (Suc k) ?r @ [?r ! Suc k]"
      using len by (simp add: take_Suc_conv_app_nth)
    moreover have "?r ! Suc k = w ! k"
      using Suc.prems by (simp add: insert_key_nth_Suc)
    moreover have "mset (take (Suc k) ?r) = add_mset key (mset (take k ?w))"
      using Suc.prems by (intro Suc.IH) simp
    moreover have "take (Suc k) w = take k w @ [w ! k]"
      using Suc.prems by (simp add: take_Suc_conv_app_nth)
    ultimately show ?thesis using True by simp
  next
    case False
    then show ?thesis using Suc.prems by (simp add: take_Suc_conv_app_nth [of "Suc k"])
  qed
qed

lemma insert_key_sorted:
  "k < length w \<Longrightarrow> sorted (take k w) \<Longrightarrow> sorted (take (Suc k) (insert_key w k key))"
proof (induction k arbitrary: w)
  case 0
  then show ?case by (cases w) auto
next
  case (Suc k)
  have tk: "take (Suc k) w = take k w @ [w ! k]"
    using Suc.prems by (simp add: take_Suc_conv_app_nth)
  have below: "\<forall>x\<in>set (take k w). x \<le> w ! k" and sk: "sorted (take k w)"
    using Suc.prems(2) unfolding tk by (auto simp: sorted_append)
  show ?case
  proof (cases "w ! k > key")
    case True
    let ?w = "w[Suc k := w ! k]"
    let ?r = "insert_key ?w k key"
    have len: "Suc k < length ?r" using Suc.prems by simp
    have split: "take (Suc (Suc k)) ?r = take (Suc k) ?r @ [w ! k]"
      using len Suc.prems by (simp add: take_Suc_conv_app_nth insert_key_nth_Suc)
    have s: "sorted (take (Suc k) ?r)"
      using Suc.prems sk by (intro Suc.IH) simp_all
    have "mset (take (Suc k) ?r) = add_mset key (mset (take k w))"
      using Suc.prems insert_key_mset [of k ?w key] by simp
    then have "set (take (Suc k) ?r) = insert key (set (take k w))"
      by (metis set_mset_add_mset_insert set_mset_mset)
    then have "\<forall>x\<in>set (take (Suc k) ?r). x \<le> w ! k"
      using below True by auto
    then show ?thesis using True s split by (simp add: sorted_append)
  next
    case False
    have "take (Suc (Suc k)) (w[Suc k := key]) = take (Suc k) w @ [key]"
      using Suc.prems by (simp add: take_Suc_conv_app_nth [of "Suc k"])
    moreover have "\<forall>x\<in>set (take (Suc k) w). x \<le> key"
      using below False unfolding tk by auto
    ultimately show ?thesis using False Suc.prems(2) by (simp add: sorted_append)
  qed
qed

lemma insertion_sort_invariant:
  "n \<le> length w \<Longrightarrow>
   length (insertion_sort n w) = length w
   \<and> drop n (insertion_sort n w) = drop n w
   \<and> sorted (take n (insertion_sort n w))
   \<and> mset (take n (insertion_sort n w)) = mset (take n w)"
proof (induction n)
  case 0
  show ?case by (simp add: insertion_sort_def)
next
  case (Suc n)
  show ?case
  proof (cases n)
    case 0
    then show ?thesis using Suc.prems by (cases w) (auto simp: insertion_sort_def)
  next
    case (Suc m)
    let ?s = "insertion_sort n w"
    have IH: "length ?s = length w" "drop n ?s = drop n w" "sorted (take n ?s)"
      "mset (take n ?s) = mset (take n w)"
      using Suc.IH Suc.prems by simp_all
    have step: "insertion_sort (Suc n) w = insert_key ?s n (?s ! n)"
      using Suc by (simp add: insertion_sort_def)
    have n: "n < length ?s" using IH(1) Suc.prems by simp
    have "?s ! n = drop n ?s ! 0" using n by simp
    then have nth: "?s ! n = w ! n" using IH(2) Suc.prems by simp
    have "drop (Suc n) (insertion_sort (Suc n) w) = drop (Suc n) ?s"
      unfolding step by (rule insert_key_drop)
    also have "\<dots> = drop 1 (drop n ?s)" by simp
    also have "\<dots> = drop (Suc n) w" unfolding IH(2) by simp
    finally have d: "drop (Suc n) (insertion_sort (Suc n) w) = drop (Suc n) w" .
    have m: "mset (take (Suc n) (insertion_sort (Suc n) w)) = mset (take (Suc n) w)"
      unfolding step using insert_key_mset [OF n] IH(4) nth Suc.prems
      by (simp add: take_Suc_conv_app_nth)
    show ?thesis
      using d m insert_key_sorted [OF n IH(3)] IH(1) unfolding step by simp
  qed
qed

lemma insertion_sort_sort: "insertion_sort (length w) w = sort w"
proof -
  let ?s = "insertion_sort (length w) w"
  have inv: "length ?s = length w \<and> drop (length w) ?s = drop (length w) w
      \<and> sorted (take (length w) ?s)
      \<and> mset (take (length w) ?s) = mset (take (length w) w)"
    by (rule insertion_sort_invariant) simp
  have t: "take (length w) ?s = ?s" using inv by simp
  have "sorted ?s" using inv unfolding t by blast
  moreover have "mset ?s = mset w" using inv unfolding t by simp
  ultimately show ?thesis by (metis properties_for_sort)
qed

section \<open>The loop of the filter\<close>

lemma filter_step_median:
  assumes "i < length (data s)"
  shows "filter_step (length (data s)) h i s =
           s\<lparr>data := (data s)[i := window_median (data s) h i],
             min_value := min (window_median (data s) h i) (min_value s),
             max_value := max (window_median (data s) h i) (max_value s)\<rparr>"
proof -
  define start where "start = (if i < h then 0 else i - h)"
  define stop where "stop = (if i + h \<ge> length (data s) then length (data s) - 1 else i + h)"
  define cs where "cs = stop - start + 1"
  have s1: "start = nat (max 0 (int i - int h))" unfolding start_def by auto
  have s2: "stop = min (length (data s) - 1) (i + h)" unfolding stop_def using assms by auto
  have "start \<le> i" "i \<le> stop" "stop < length (data s)"
    unfolding start_def stop_def using assms by auto
  then have len: "length (take cs (drop start (data s))) = cs"
    unfolding cs_def by auto
  have srt: "insertion_sort cs (take cs (drop start (data s))) = sort (take cs (drop start (data s)))"
    using insertion_sort_sort [of "take cs (drop start (data s))"] unfolding len .
  have wm: "window_median (data s) h i = sort (take cs (drop start (data s))) ! (cs div 2)"
    unfolding window_median_def Let_def cs_def s1 s2 ..
  have "filter_step (length (data s)) h i s =
      (let d = (data s)[i := window_median (data s) h i];
           mx = (if d ! i > max_value s then d ! i else max_value s);
           mn = (if d ! i < min_value s then d ! i else min_value s)
       in s\<lparr>data := d, min_value := mn, max_value := mx\<rparr>)"
    unfolding filter_step_def wm
    unfolding start_def [symmetric] stop_def [symmetric] Let_def cs_def [symmetric] srt ..
  also have "\<dots> = s\<lparr>data := (data s)[i := window_median (data s) h i],
             min_value := min (window_median (data s) h i) (min_value s),
             max_value := max (window_median (data s) h i) (max_value s)\<rparr>"
    using assms by (auto simp: Let_def min_def max_def)
  finally show ?thesis .
qed

lemma filter_loop_invariant:
  fixes h :: nat and k :: nat and s0 :: filter_state
  assumes "k \<le> length (data s0)"
  defines "sk \<equiv> fold (filter_step (length (data s0)) h) [0..<k] s0"
  shows "length (data sk) = length (data s0)
         \<and> drop k (data sk) = drop k (data s0)
         \<and> ok sk = ok s0 \<and> allocs sk = allocs s0
         \<and> min_value sk = Min (insert (min_value s0) (set (take k (data sk))))
         \<and> max_value sk = Max (insert (max_value s0) (set (take k (data sk))))"
  using assms(1) unfolding sk_def
proof (induction k)
  case 0
  show ?case by simp
next
  case (Suc k)
  let ?s = "fold (filter_step (length (data s0)) h) [0..<k] s0"
  let ?m = "window_median (data ?s) h k"
  have IH: "length (data ?s) = length (data s0)" "drop k (data ?s) = drop k (data s0)"
    "ok ?s = ok s0" "allocs ?s = allocs s0"
    "min_value ?s = Min (insert (min_value s0) (set (take k (data ?s))))"
    "max_value ?s = Max (insert (max_value s0) (set (take k (data ?s))))"
    using Suc.IH Suc.prems by simp_all
  have k: "k < length (data ?s)" using IH(1) Suc.prems by simp
  have step: "fold (filter_step (length (data s0)) h) [0..<Suc k] s0 =
      ?s\<lparr>data := (data ?s)[k := ?m], min_value := min ?m (min_value ?s),
         max_value := max ?m (max_value ?s)\<rparr>"
    using filter_step_median [OF k, of h] unfolding IH(1) by simp
  have tk: "take (Suc k) ((data ?s)[k := ?m]) = take k (data ?s) @ [?m]"
    using k by (simp add: take_Suc_conv_app_nth)
  have "drop (Suc k) ((data ?s)[k := ?m]) = drop 1 (drop k (data ?s))"
    by (simp add: drop_update_cancel)
  also have "\<dots> = drop (Suc k) (data s0)" unfolding IH(2) by simp
  finally have dk: "drop (Suc k) ((data ?s)[k := ?m]) = drop (Suc k) (data s0)" .
  have sw: "insert a (set (take k (data ?s) @ [?m])) = insert ?m (insert a (set (take k (data ?s))))"
    for a by auto
  have mn: "min ?m (min_value ?s) = Min (insert (min_value s0) (set (take k (data ?s) @ [?m])))"
    unfolding IH(5) sw by (rule Min_insert [symmetric]) simp_all
  have mx: "max ?m (max_value ?s) = Max (insert (max_value s0) (set (take k (data ?s) @ [?m])))"
    unfolding IH(6) sw by (rule Max_insert [symmetric]) simp_all
  show ?case
    unfolding step using IH(1,3,4) dk mn mx tk by simp
qed

lemma filter_loop_prefix:
  assumes "k \<le> n" "n \<le> length (data s0)"
  shows "take k (data (fold (filter_step (length (data s0)) h) [0..<n] s0))
         = take k (data (fold (filter_step (length (data s0)) h) [0..<k] s0))"
  using assms
proof (induction n)
  case 0
  then show ?case by simp
next
  case (Suc n)
  show ?case
  proof (cases "k = Suc n")
    case True
    then show ?thesis by simp
  next
    case False
    then have kn: "k \<le> n" using Suc.prems by simp
    let ?s = "fold (filter_step (length (data s0)) h) [0..<n] s0"
    have len: "length (data ?s) = length (data s0)"
      using filter_loop_invariant [of n s0 h] Suc.prems by simp
    then have n: "n < length (data ?s)" using Suc.prems by simp
    have "data (fold (filter_step (length (data s0)) h) [0..<Suc n] s0)
          = (data ?s)[n := window_median (data ?s) h n]"
      using filter_step_median [OF n, of h] unfolding len by simp
    then show ?thesis using kn Suc.IH Suc.prems by (simp add: take_update_cancel)
  qed
qed

lemma filter_loop_nth:
  fixes h :: nat and i :: nat and s0 :: filter_state
  assumes "i < length (data s0)"
  defines "out \<equiv> data (fold (filter_step (length (data s0)) h) [0..<length (data s0)] s0)"
  shows "out ! i = window_median (take i out @ drop i (data s0)) h i"
proof -
  let ?run = "\<lambda>k. fold (filter_step (length (data s0)) h) [0..<k] s0"
  have len: "length (data (?run i)) = length (data s0)"
    and dr: "drop i (data (?run i)) = drop i (data s0)"
    using filter_loop_invariant [of i s0 h] assms(1) by simp_all
  have lenS: "length (data (?run (Suc i))) = length (data s0)"
    using filter_loop_invariant [of "Suc i" s0 h] assms(1) by simp
  have lenL: "length out = length (data s0)"
    unfolding out_def using filter_loop_invariant [of "length (data s0)" s0 h] by simp
  have p1: "take i out = take i (data (?run i))"
    unfolding out_def using filter_loop_prefix [of i "length (data s0)" s0 h] assms(1) by simp
  have p2: "take (Suc i) out = take (Suc i) (data (?run (Suc i)))"
    unfolding out_def using filter_loop_prefix [of "Suc i" "length (data s0)" s0 h] assms(1) by simp
  have i': "i < length (data (?run i))" using len assms(1) by simp
  have "out ! i = take (Suc i) out ! i" by simp
  also have "\<dots> = data (?run (Suc i)) ! i" unfolding p2 by simp
  also have "\<dots> = window_median (data (?run i)) h i"
  proof -
    have "data (?run (Suc i)) = (data (?run i))[i := window_median (data (?run i)) h i]"
      using filter_step_median [OF i', of h] unfolding len by simp
    then show ?thesis using i' by simp
  qed
  also have "data (?run i) = take i (data (?run i)) @ drop i (data (?run i))" by simp
  also have "\<dots> = take i out @ drop i (data s0)" unfolding p1 dr ..
  finally show ?thesis .
qed

section \<open>Properties of the median filter\<close>

text \<open>
  C1, as amended. Applied to \<open>[9,1,8,2,7]\<close> with window size 3 the filter succeeds and
  leaves \<open>[9,8,8,7,7]\<close> in the buffer, with minimum 7 and maximum 9: the two-cell
  windows at the edges take their upper element, and the window of index 2 already
  holds the filtered value of index 1.
\<close>

theorem median_filter_fixture:
  "median_filter_in_place True [9, 1, 8, 2, 7] 3 mn mx =
     \<lparr>data = [9, 8, 8, 7, 7], min_value = 7, max_value = 9, ok = True,
      allocs = [Malloc 6 True, Free_window]\<rparr>"
  by code_simp

text \<open>
  C1 as stated fails: the filtered sequence is not \<open>[1,8,2,7,2]\<close>, the minimum is
  not 1 and the maximum is not 8.
\<close>

theorem median_filter_fixture_counterexample:
  "data (median_filter_in_place True [9, 1, 8, 2, 7] 3 0 0) \<noteq> [1, 8, 2, 7, 2]
   \<and> min_value (median_filter_in_place True [9, 1, 8, 2, 7] 3 0 0) \<noteq> 1
   \<and> max_value (median_filter_in_place True [9, 1, 8, 2, 7] 3 0 0) \<noteq> 8"
  by code_simp

text \<open>
  C4. A window size greater than the buffer length makes the function return
  \<^verbatim>\<open>false\<close> at once: the buffer and both output cells are as they were, and no heap
  call has been made.
\<close>

theorem oversized_window_rejected:
  "length d < window_size \<Longrightarrow>
   median_filter_in_place malloc_ok d window_size mn mx =
     \<lparr>data = d, min_value = mn, max_value = mx, ok = False, allocs = []\<rparr>"
  by (simp add: median_filter_in_place_def)

theorem oversized_window_rejected_witness:
  "length [3, 4 :: uint16] < 3 \<and>
   median_filter_in_place True [3, 4] 3 11 12 =
     \<lparr>data = [3, 4], min_value = 11, max_value = 12, ok = False, allocs = []\<rparr>"
  using oversized_window_rejected [of "[3, 4]" 3 True 11 12] by simp

text \<open>
  C10. On the empty buffer with window size 0 the function succeeds when the
  allocation does, the buffer stays empty, and the output cells hold their initial
  values \<open>0xFFFF\<close> and \<open>0\<close>: here the minimum is above the maximum.
\<close>

theorem empty_buffer_extremes:
  "median_filter_in_place True [] 0 mn mx =
     \<lparr>data = [], min_value = 0xFFFF, max_value = 0, ok = True,
      allocs = [Malloc 2 True, Free_window]\<rparr>
   \<and> max_value (median_filter_in_place True [] 0 mn mx)
       < min_value (median_filter_in_place True [] 0 mn mx)"
  by (simp add: median_filter_in_place_def)

lemma median_filter_success:
  assumes "w \<le> length d"
  shows "median_filter_in_place True d w mn mx =
    (fold (filter_step (length d) (w div 2)) [0..<length d]
       \<lparr>data = d, min_value = 0xFFFF, max_value = 0, ok = True,
        allocs = [Malloc ((if w mod 2 = 0 then w + 1 else w) * 2) True]\<rparr>)
    \<lparr>allocs := [Malloc ((if w mod 2 = 0 then w + 1 else w) * 2) True, Free_window]\<rparr>"
proof -
  let ?init = "\<lparr>data = d, min_value = 0xFFFF, max_value = 0, ok = True,
        allocs = [Malloc ((if w mod 2 = 0 then w + 1 else w) * 2) True]\<rparr>"
  have h: "(if w mod 2 = 0 then w + 1 else w) div 2 = w div 2" by auto
  have "allocs (fold (filter_step (length (data ?init)) (w div 2)) [0..<length d] ?init) = allocs ?init"
    using filter_loop_invariant [of "length d" ?init "w div 2"] by simp
  then show ?thesis
    using assms unfolding median_filter_in_place_def Let_def h by simp
qed

text \<open>
  C2, as amended. For a window size within the buffer length, the value the filter
  leaves at index \<open>i\<close> is the reference median, with half window \<open>w div 2\<close>, of the
  buffer as it stands when index \<open>i\<close> is processed: the filtered values of the indices
  below \<open>i\<close>, followed by the original values from index \<open>i\<close> on.
\<close>

theorem in_place_window_median:
  assumes "w \<le> length d" and "i < length d"
  shows "data (median_filter_in_place True d w mn mx) ! i =
         window_median (take i (data (median_filter_in_place True d w mn mx)) @ drop i d)
           (w div 2) i"
proof -
  let ?init = "\<lparr>data = d, min_value = 0xFFFF, max_value = 0, ok = True,
        allocs = [Malloc ((if w mod 2 = 0 then w + 1 else w) * 2) True]\<rparr>"
  have "data (median_filter_in_place True d w mn mx) =
        data (fold (filter_step (length (data ?init)) (w div 2)) [0..<length (data ?init)] ?init)"
    unfolding median_filter_success [OF assms(1)] by simp
  then show ?thesis
    using filter_loop_nth [of i ?init "w div 2"] assms(2) by simp
qed

text \<open>
  The amended C2 at the buffer \<open>[9,1,8,2,7]\<close>, window size 3, index 2.
\<close>

theorem in_place_window_median_witness:
  "3 \<le> length [9, 1, 8, 2, 7 :: uint16] \<and> 2 < length [9, 1, 8, 2, 7 :: uint16] \<and>
   data (median_filter_in_place True [9, 1, 8, 2, 7] 3 0 0) ! 2 =
     window_median (take 2 (data (median_filter_in_place True [9, 1, 8, 2, 7] 3 0 0))
                    @ drop 2 [9, 1, 8, 2, 7]) (3 div 2) 2"
  using in_place_window_median [of 3 "[9, 1, 8, 2, 7]" 2 0 0] by simp

text \<open>
  C2 as stated fails: at index 2 of \<open>[9,1,8,2,7]\<close> with window size 3 the filter
  leaves 8, while the reference median of the original buffer is 2. The window of
  index 2 holds the value already written at index 1.
\<close>

theorem original_window_counterexample:
  "data (median_filter_in_place True [9, 1, 8, 2, 7] 3 0 0) ! 2
     \<noteq> window_median [9, 1, 8, 2, 7] (3 div 2) 2"
  by code_simp

lemma uint16_le_max: "(x :: uint16) \<le> 0xFFFF"
proof -
  have "(0xFFFF :: uint16) = - 1" by simp
  then show ?thesis by (simp only: word_n1_ge)
qed

lemma median_filter_extremes:
  assumes "d \<noteq> []" and "w \<le> length d"
  shows "ok (median_filter_in_place True d w mn mx)
         \<and> min_value (median_filter_in_place True d w mn mx)
             = Min (set (data (median_filter_in_place True d w mn mx)))
         \<and> max_value (median_filter_in_place True d w mn mx)
             = Max (set (data (median_filter_in_place True d w mn mx)))
         \<and> min_value (median_filter_in_place True d w mn mx)
             \<le> max_value (median_filter_in_place True d w mn mx)"
proof -
  define r where "r = median_filter_in_place True d w mn mx"
  let ?init = "\<lparr>data = d, min_value = 0xFFFF, max_value = 0, ok = True,
        allocs = [Malloc ((if w mod 2 = 0 then w + 1 else w) * 2) True]\<rparr>"
  let ?s = "fold (filter_step (length (data ?init)) (w div 2)) [0..<length (data ?init)] ?init"
  have inv: "length (data ?s) = length d" "ok ?s"
     "min_value ?s = Min (insert 0xFFFF (set (take (length d) (data ?s))))"
     "max_value ?s = Max (insert 0 (set (take (length d) (data ?s))))"
    using filter_loop_invariant [of "length d" ?init "w div 2"] by simp_all
  have r: "data r = data ?s" "min_value r = min_value ?s" "max_value r = max_value ?s" "ok r = ok ?s"
    unfolding r_def median_filter_success [OF assms(2)] by simp_all
  have len: "length (data r) = length d" using inv(1) r(1) by simp
  then have ne: "set (data r) \<noteq> {}" using assms(1) by auto
  have t: "take (length d) (data ?s) = data r" using len r(1) by simp
  have "min_value r = Min (insert 0xFFFF (set (data r)))"
    using inv(3) r(2) unfolding t by simp
  also have "\<dots> = min 0xFFFF (Min (set (data r)))"
    using ne by (intro Min_insert) simp_all
  also have "\<dots> = Min (set (data r))"
    using uint16_le_max [of "Min (set (data r))"] by (simp add: min_def)
  finally have mn: "min_value r = Min (set (data r))" .
  have "max_value r = Max (insert 0 (set (data r)))"
    using inv(4) r(3) unfolding t by simp
  also have "\<dots> = max 0 (Max (set (data r)))"
    using ne by (intro Max_insert) simp_all
  also have "\<dots> = Max (set (data r))" by (simp add: max_def)
  finally have mx: "max_value r = Max (set (data r))" .
  have "Min (set (data r)) \<le> Max (set (data r))"
  proof -
    have "data r \<noteq> []" using ne by simp
    then have x: "hd (data r) \<in> set (data r)" by (rule hd_in_set)
    have "Min (set (data r)) \<le> hd (data r)" using x by simp
    also have "hd (data r) \<le> Max (set (data r))" using x by simp
    finally show ?thesis .
  qed
  then show ?thesis using mn mx inv(2) r(4) unfolding r_def by simp
qed

text \<open>
  C3. For a non-empty buffer and a window size within its length, the filter succeeds
  (the allocation succeeding), the returned minimum and maximum are the minimum and
  the maximum of the filtered buffer, and the minimum is at most the maximum.
\<close>

theorem filtered_extremes:
  assumes "d \<noteq> []" and "w \<le> length d"
  shows "ok (median_filter_in_place True d w mn mx)
         \<and> min_value (median_filter_in_place True d w mn mx)
             = Min (set (data (median_filter_in_place True d w mn mx)))
         \<and> max_value (median_filter_in_place True d w mn mx)
             = Max (set (data (median_filter_in_place True d w mn mx)))
         \<and> min_value (median_filter_in_place True d w mn mx)
             \<le> max_value (median_filter_in_place True d w mn mx)"
  using assms by (rule median_filter_extremes)

text \<open>
  C3 at the buffer \<open>[9,1,8,2,7]\<close> with window size 3.
\<close>

theorem filtered_extremes_witness:
  "[9, 1, 8, 2, 7 :: uint16] \<noteq> [] \<and> 3 \<le> length [9, 1, 8, 2, 7 :: uint16] \<and>
   ok (median_filter_in_place True [9, 1, 8, 2, 7] 3 0 0) \<and>
   min_value (median_filter_in_place True [9, 1, 8, 2, 7] 3 0 0)
     = Min (set (data (median_filter_in_place True [9, 1, 8, 2, 7] 3 0 0))) \<and>
   max_value (median_filter_in_place True [9, 1, 8, 2, 7] 3 0 0)
     = Max (set (data (median_filter_in_place True [9, 1, 8, 2, 7] 3 0 0))) \<and>
   min_value (median_filter_in_place True [9, 1, 8, 2, 7] 3 0 0)
     \<le> max_value (median_filter_in_place True [9, 1, 8, 2, 7] 3 0 0)"
proof -
  have h1: "[9, 1, 8, 2, 7 :: uint16] \<noteq> []" by simp
  have h2: "3 \<le> length [9, 1, 8, 2, 7 :: uint16]" by simp
  show ?thesis using filtered_extremes [OF h1 h2, of 0 0] h1 h2 by blast
qed

text \<open>
  C5, as amended. For an even window size different from the buffer length, the call
  with \<open>w\<close> and the call with \<open>w + 1\<close> give the same result: the same outcome, the same
  buffer, the same minimum and maximum, the same heap calls.
\<close>

theorem even_window_coercion:
  assumes "w mod 2 = 0" and "w \<noteq> length d"
  shows "median_filter_in_place malloc_ok d w mn mx
         = median_filter_in_place malloc_ok d (w + 1) mn mx"
proof (cases "length d < w")
  case True
  then show ?thesis by (simp add: median_filter_in_place_def)
next
  case False
  then have "w + 1 \<le> length d" using assms(2) by simp
  moreover have "(w + 1) mod 2 \<noteq> 0" using assms(1) by presburger
  ultimately show ?thesis using assms(1) False
    by (simp add: median_filter_in_place_def)
qed

text \<open>
  The amended C5 at the buffer \<open>[9,1,8,2,7]\<close> with window sizes 2 and 3.
\<close>

theorem even_window_coercion_witness:
  "(2 :: nat) mod 2 = 0 \<and> 2 \<noteq> length [9, 1, 8, 2, 7 :: uint16] \<and>
   median_filter_in_place True [9, 1, 8, 2, 7] 2 0 0
     = median_filter_in_place True [9, 1, 8, 2, 7] (2 + 1) 0 0"
  using even_window_coercion [of 2 "[9, 1, 8, 2, 7]" True 0 0] by simp

text \<open>
  C5 as stated fails when the even window size equals the buffer length: on \<open>[5,6]\<close>
  the call with window size 2 succeeds, and the call with window size 3 is rejected by
  the guard, which compares the size before it is made odd.
\<close>

theorem even_window_coercion_counterexample:
  "ok (median_filter_in_place True [5, 6] 2 0 0)
   \<and> \<not> ok (median_filter_in_place True [5, 6] (2 + 1) 0 0)"
  by code_simp

section \<open>Rounding to double precision\<close>

lemma expo_up_eval: "2 \<le> x \<Longrightarrow> expo_up x = expo_up (x / 2) + 1" "x < 2 \<Longrightarrow> expo_up x = 0"
  by simp_all

lemma expo_down_eval: "0 < x \<Longrightarrow> x < 1 \<Longrightarrow> expo_down x = expo_down (2 * x) - 1"
  "1 \<le> x \<Longrightarrow> expo_down x = 0"
  by simp_all

declare expo_up.simps [simp del] expo_down.simps [simp del]


lemma floor_rat_numeral:
  "\<lfloor>(numeral a / numeral b :: rat)\<rfloor> = numeral a div numeral b"
  by (metis floor_divide_of_int_eq of_int_numeral)

lemma sqrt2_double: "to_double (14142135 / 10000000) = 6369051391622325 / 4503599627370496"
  by (simp add: to_double_def expo_up_eval pow2_def round_half_even_def Let_def floor_rat_numeral)

lemma rms_double_4000: "rms_double 4000 = 6219777298270735 / 4398046511104"
  apply (simp add: rms_double_def double_div_def sqrt2_double)
  apply (simp add: to_double_def expo_up_eval pow2_def round_half_even_def Let_def floor_rat_numeral)
  done

lemma pow2_pos: "0 < pow2 k"
  by (simp add: pow2_def)

lemma pow2_Suc: "pow2 (k + 1) = 2 * pow2 k"
proof (cases "0 \<le> k")
  case True
  then have "nat (k + 1) = Suc (nat k)" by simp
  then show ?thesis using True by (simp add: pow2_def)
next
  case False
  show ?thesis
  proof (cases "k = - 1")
    case True
    then show ?thesis by (simp add: pow2_def)
  next
    case False
    with \<open>\<not> 0 \<le> k\<close> have "k + 1 < 0" by simp
    moreover from this have "nat (- k) = Suc (nat (- (k + 1)))" by simp
    ultimately show ?thesis using \<open>\<not> 0 \<le> k\<close> by (simp add: pow2_def)
  qed
qed

lemma pow2_pred: "pow2 (k - 1) = pow2 k / 2"
  using pow2_Suc [of "k - 1"] by simp

lemma pow2_minus_nat: "pow2 (k - int n) = pow2 k / 2 ^ n"
proof (induction n)
  case 0
  show ?case by simp
next
  case (Suc n)
  have "pow2 (k - int (Suc n)) = pow2 ((k - int n) - 1)" by (simp add: algebra_simps)
  also have "\<dots> = pow2 (k - int n) / 2" by (rule pow2_pred)
  finally show ?case using Suc.IH by simp
qed

lemma expo_up_le: "1 \<le> x \<Longrightarrow> pow2 (expo_up x) \<le> x"
proof (induction x rule: expo_up.induct)
  case (1 x)
  show ?case
  proof (cases "2 \<le> x")
    case True
    have e: "expo_up x = expo_up (x / 2) + 1" using True by (rule expo_up_eval(1))
    have "1 \<le> x / 2" using True by simp
    with True have "pow2 (expo_up (x / 2)) \<le> x / 2" by (rule "1.IH")
    moreover have "pow2 (expo_up x) = 2 * pow2 (expo_up (x / 2))"
      unfolding e by (rule pow2_Suc)
    ultimately show ?thesis by linarith
  next
    case False
    then have "x < 2" by simp
    then have "expo_up x = 0" by (rule expo_up_eval(2))
    moreover have "pow2 0 = 1" by (simp add: pow2_def)
    ultimately show ?thesis using "1.prems" by simp
  qed
qed

lemma expo_down_le: "0 < x \<Longrightarrow> x < 1 \<Longrightarrow> pow2 (expo_down x) \<le> x"
proof (induction x rule: expo_down.induct)
  case (1 x)
  have e: "expo_down x = expo_down (2 * x) - 1"
    using "1.prems" by (rule expo_down_eval(1))
  have half: "pow2 (expo_down x) = pow2 (expo_down (2 * x)) / 2"
    unfolding e by (rule pow2_pred)
  show ?case
  proof (cases "2 * x < 1")
    case True
    have "0 < x \<and> x < 1" using "1.prems" by simp
    moreover have "0 < 2 * x" using "1.prems" by simp
    ultimately have "pow2 (expo_down (2 * x)) \<le> 2 * x" using True by (rule "1.IH")
    then show ?thesis unfolding half by linarith
  next
    case False
    then have "1 \<le> 2 * x" by simp
    then have "expo_down (2 * x) = 0" by (rule expo_down_eval(2))
    moreover have "pow2 0 = 1" by (simp add: pow2_def)
    ultimately show ?thesis unfolding half using False by simp
  qed
qed

lemma round_half_even_near: "\<bar>of_int (round_half_even m) - m\<bar> \<le> 1 / 2"
proof -
  have "of_int \<lfloor>m\<rfloor> \<le> m" "m < of_int \<lfloor>m\<rfloor> + 1" by linarith+
  then show ?thesis by (auto simp: round_half_even_def Let_def)
qed

lemma to_double_error:
  assumes "0 \<le> x"
  shows "\<bar>to_double x - x\<bar> \<le> x / 2 ^ 53"
proof (cases "x = 0")
  case True
  then show ?thesis by (simp add: to_double_def)
next
  case False
  then have pos: "0 < x" using assms by simp
  define e where "e = (if 1 \<le> \<bar>x\<bar> then expo_up \<bar>x\<bar> else expo_down \<bar>x\<bar>)"
  define ulp where "ulp = pow2 (e - 52)"
  have le: "pow2 e \<le> x"
    unfolding e_def using pos expo_up_le [of x] expo_down_le [of x] by auto
  have ulp: "ulp = pow2 e / 2 ^ 52"
    unfolding ulp_def using pow2_minus_nat [of e 52] by simp
  have ulp_pos: "0 < ulp" unfolding ulp_def by (rule pow2_pos)
  have td: "to_double x = of_int (round_half_even (x / ulp)) * ulp"
    using False unfolding to_double_def Let_def e_def ulp_def by simp
  have "to_double x - x = (of_int (round_half_even (x / ulp)) - x / ulp) * ulp"
    unfolding td using ulp_pos by (simp add: algebra_simps)
  then have "\<bar>to_double x - x\<bar> = \<bar>of_int (round_half_even (x / ulp)) - x / ulp\<bar> * ulp"
    using ulp_pos by (simp add: abs_mult)
  also have "\<dots> \<le> (1 / 2) * ulp"
    using round_half_even_near [of "x / ulp"] ulp_pos by (intro mult_right_mono) simp_all
  also have "\<dots> = pow2 e / 2 ^ 53" unfolding ulp by simp
  also have "\<dots> \<le> x / 2 ^ 53" using le by (simp add: divide_right_mono)
  finally show ?thesis .
qed

lemma to_double_bounds:
  assumes "0 \<le> x"
  shows "x * (1 - 1 / 2 ^ 53) \<le> to_double x" and "to_double x \<le> x * (1 + 1 / 2 ^ 53)"
proof -
  have "\<bar>to_double x - x\<bar> \<le> x / 2 ^ 53" using assms by (rule to_double_error)
  then have "x - x / 2 ^ 53 \<le> to_double x \<and> to_double x \<le> x + x / 2 ^ 53"
    by (simp only: abs_le_iff) linarith
  then show "x * (1 - 1 / 2 ^ 53) \<le> to_double x" and "to_double x \<le> x * (1 + 1 / 2 ^ 53)"
    by (simp_all only: algebra_simps) simp_all
qed

lemma rms_double_close:
  assumes "0 \<le> d" and "d \<le> 65535"
  shows "\<bar>rms_double d - (of_int d / 2) / (14142135 / 10000000)\<bar> < 1 / 56568540"
    and "0 \<le> rms_double d"
proof -
  define x :: rat where "x = of_int d / 2"
  define eps :: rat where "eps = 1 / 2 ^ 53"
  define ic :: rat where "ic = 4503599627370496 / 6369051391622325"
  define icd :: rat where "icd = 10000000 / 14142135"
  define a where "a = to_double x"
  define q where "q = to_double (a * ic)"
  have x: "0 \<le> x" "x \<le> 32768" unfolding x_def using assms by simp_all
  have c: "0 \<le> ic" "0 \<le> 1 + eps" "0 \<le> 1 - eps" unfolding ic_def eps_def by simp_all
  have K1: "(1 + eps) * ic * (1 + eps) - icd \<le> 1 / 10 ^ 14"
    unfolding eps_def ic_def icd_def by simp
  have K2: "icd - (1 - eps) * ic * (1 - eps) \<le> 1 / 10 ^ 14"
    unfolding eps_def ic_def icd_def by simp
  have a: "x * (1 - eps) \<le> a" "a \<le> x * (1 + eps)"
    unfolding a_def eps_def using x(1) by (rule to_double_bounds)+
  have a0: "0 \<le> a" using a(1) x(1) c(3) by (meson mult_nonneg_nonneg order_trans)
  then have q00: "0 \<le> a * ic" using c(1) by simp
  have q: "a * ic * (1 - eps) \<le> q" "q \<le> a * ic * (1 + eps)"
    unfolding q_def eps_def using q00 by (rule to_double_bounds)+
  have "a * ic * (1 + eps) \<le> x * (1 + eps) * ic * (1 + eps)"
    using a(2) c by (intro mult_right_mono) simp_all
  then have hi: "q \<le> x * ((1 + eps) * ic * (1 + eps))" using q(2) by (simp add: mult.assoc)
  have "x * (1 - eps) * ic * (1 - eps) \<le> a * ic * (1 - eps)"
    using a(1) c by (intro mult_right_mono) simp_all
  then have lo: "x * ((1 - eps) * ic * (1 - eps)) \<le> q" using q(1) by (simp add: mult.assoc)
  have "q - x * icd \<le> x * ((1 + eps) * ic * (1 + eps) - icd)"
    using hi by (simp add: right_diff_distrib)
  also have "\<dots> \<le> x * (1 / 10 ^ 14)" using K1 x(1) by (rule mult_left_mono)
  finally have up: "q - x * icd \<le> x * (1 / 10 ^ 14)" .
  have "x * icd - q \<le> x * (icd - (1 - eps) * ic * (1 - eps))"
    using lo by (simp add: right_diff_distrib)
  also have "\<dots> \<le> x * (1 / 10 ^ 14)" using K2 x(1) by (rule mult_left_mono)
  finally have dn: "x * icd - q \<le> x * (1 / 10 ^ 14)" .
  have small: "x * (1 / 10 ^ 14) < 1 / 56568540" using x(2) by simp
  have rd: "rms_double d = q"
    unfolding rms_double_def double_div_def sqrt2_double q_def a_def x_def ic_def by simp
  have t: "(of_int d / 2) / (14142135 / 10000000) = x * icd"
    unfolding x_def icd_def by simp
  show "\<bar>rms_double d - (of_int d / 2) / (14142135 / 10000000)\<bar> < 1 / 56568540"
    unfolding rd t using up dn small by (simp only: abs_less_iff) linarith
  have "0 \<le> a * ic * (1 - eps)" using q00 c(3) by simp
  then show "0 \<le> rms_double d" unfolding rd using q(1) by simp
qed

lemma rms_round_exact:
  assumes "0 \<le> d" and "d \<le> 65535"
  shows "c_round (rms_double d) = round ((of_int d / 2) / (14142135 / 10000000) :: rat)"
    and "0 \<le> round ((of_int d / 2) / (14142135 / 10000000) :: rat)"
    and "round ((of_int d / 2) / (14142135 / 10000000) :: rat) < 65536"
    and "\<bar>of_int (round ((of_int d / 2) / (14142135 / 10000000) :: rat))
          - (of_int d / 2) / (14142135 / 10000000 :: rat)\<bar> < 1 / 2"
proof -
  define t :: rat where "t = (of_int d / 2) / (14142135 / 10000000)"
  define q where "q = rms_double d"
  define A :: int where "A = d * 10000000 + 14142135"
  define k where "k = A div 28284270"
  have close: "\<bar>q - t\<bar> < 1 / 56568540" and q0: "0 \<le> q"
    unfolding q_def t_def using assms by (rule rms_double_close)+
  have tA: "t + 1 / 2 = of_int A / of_int 28284270"
    unfolding t_def A_def by simp
  have rt: "round t = k"
    unfolding round_def tA k_def by (rule floor_divide_of_int_eq)
  have odd: "odd A" unfolding A_def by simp
  have "A mod 28284270 \<noteq> 0"
  proof
    assume "A mod 28284270 = 0"
    then have "28284270 dvd A" by (simp only: dvd_eq_mod_eq_0)
    moreover have "(2 :: int) dvd 28284270" by simp
    ultimately have "2 dvd A" by (rule dvd_trans [rotated])
    then show False using odd by simp
  qed
  moreover have "0 \<le> A mod 28284270" "A mod 28284270 < 28284270" by simp_all
  ultimately have m: "1 \<le> A mod 28284270" "A mod 28284270 \<le> 28284269" by linarith+
  have "A = 28284270 * k + A mod 28284270" unfolding k_def by simp
  then have "rat_of_int A = 28284270 * of_int k + of_int (A mod 28284270)"
    by (metis of_int_add of_int_mult of_int_numeral)
  then have split: "t + 1 / 2 = of_int k + of_int (A mod 28284270) / 28284270"
    unfolding tA by simp
  have f1: "(1 :: rat) \<le> of_int (A mod 28284270)" using m(1) by linarith
  have f2: "rat_of_int (A mod 28284270) \<le> 28284269" using m(2) by linarith
  have lo: "of_int k + 1 / 28284270 \<le> t + 1 / 2"
    unfolding split using f1 by (simp add: divide_right_mono)
  have hi: "t + 1 / 2 \<le> of_int k + 28284269 / 28284270"
    unfolding split using f2 by (simp add: divide_right_mono)
  have q1: "t - 1 / 56568540 < q" and q2: "q < t + 1 / 56568540"
    using close by (simp_all only: abs_less_iff) linarith+
  have "of_int k \<le> q + 1 / 2" using lo q1 by linarith
  moreover have "q + 1 / 2 < of_int k + 1" using hi q2 by linarith
  ultimately have "\<lfloor>q + 1 / 2\<rfloor> = k" by (rule floor_unique)
  then have "c_round q = round t" unfolding c_round_def rt using q0 by simp
  then show "c_round (rms_double d) = round ((of_int d / 2) / (14142135 / 10000000) :: rat)"
    unfolding q_def t_def .
  have t0: "0 \<le> t" unfolding t_def using assms(1) by simp
  have "t \<le> (65535 / 2) / (14142135 / 10000000)"
    unfolding t_def using assms(2) by (simp add: divide_right_mono)
  then have t1: "t < 23171" by simp
  have "rat_of_int k \<le> t + 1 / 2" using lo by linarith
  then have "rat_of_int k < 23172" using t1 by linarith
  then have k1: "k < 23172" by linarith
  have "t + 1 / 2 < rat_of_int k + 1" using hi by linarith
  then have "- 1 < rat_of_int k" using t0 by linarith
  then have k0: "0 \<le> k" by linarith
  show "0 \<le> round ((of_int d / 2) / (14142135 / 10000000) :: rat)"
    using k0 rt unfolding t_def by simp
  show "round ((of_int d / 2) / (14142135 / 10000000) :: rat) < 65536"
    using k1 rt unfolding t_def by simp
  have "\<bar>rat_of_int k - t\<bar> < 1 / 2"
    using lo hi by (simp only: abs_less_iff) linarith
  then show "\<bar>of_int (round ((of_int d / 2) / (14142135 / 10000000) :: rat))
          - (of_int d / 2) / (14142135 / 10000000 :: rat)\<bar> < 1 / 2"
    using rt unfolding t_def by simp
qed

section \<open>Properties of the RMS estimate\<close>

lemma rms_estimate_fixture: "rms_estimate (\<lambda>x. x) 1000 5000 = Some 1414"
proof -
  have id: "raw_to_millivolts (\<lambda>x. x) 1000 = 1000" "raw_to_millivolts (\<lambda>x. x) 5000 = 5000"
    by (simp_all add: raw_to_millivolts_def)
  show ?thesis
    unfolding rms_estimate_def id by (simp add: rms_double_4000 c_round_def floor_rat_numeral)
qed

lemma rms_estimate_nearest:
  assumes "raw_to_millivolts cal mn \<le> raw_to_millivolts cal mx"
  shows "\<exists>r. rms_estimate cal mn mx = Some r
            \<and> uint r = round (rms_formula (raw_to_millivolts cal mn) (raw_to_millivolts cal mx))
            \<and> \<bar>of_int (uint r)
                 - rms_formula (raw_to_millivolts cal mn) (raw_to_millivolts cal mx)\<bar> < 1 / 2"
proof -
  define lo where "lo = raw_to_millivolts cal mn"
  define hi where "hi = raw_to_millivolts cal mx"
  define d where "d = uint hi - uint lo"
  have "uint lo \<le> uint hi" using assms unfolding lo_def hi_def by (simp add: word_le_def)
  then have d0: "0 \<le> d" unfolding d_def by simp
  have "uint hi < 65536" using uint_lt2p [of hi] by simp
  moreover have "0 \<le> uint lo" by (rule uint_ge_0)
  ultimately have d1: "d \<le> 65535" unfolding d_def by linarith
  have f: "rms_formula lo hi = (of_int d / 2) / (14142135 / 10000000)"
    unfolding rms_formula_def d_def by simp
  note ex = rms_round_exact [OF d0 d1, folded f]
  define r :: uint16 where "r = word_of_int (round (rms_formula lo hi))"
  have "uint r = round (rms_formula lo hi) mod 2 ^ 16"
    unfolding r_def by (simp add: uint_word_of_int)
  then have ur: "uint r = round (rms_formula lo hi)" using ex(2,3) by simp
  have e1: "rms_estimate cal mn mx = Some r"
    unfolding rms_estimate_def Let_def lo_def [symmetric] hi_def [symmetric] d_def [symmetric]
      r_def ex(1) using ex(2,3) by simp
  have near: "\<bar>of_int (uint r) - rms_formula lo hi\<bar> < 1 / 2"
    unfolding ur by (rule ex(4))
  show "\<exists>r. rms_estimate cal mn mx = Some r
            \<and> uint r = round (rms_formula (raw_to_millivolts cal mn) (raw_to_millivolts cal mx))
            \<and> \<bar>of_int (uint r)
                 - rms_formula (raw_to_millivolts cal mn) (raw_to_millivolts cal mx)\<bar> < 1 / 2"
    using e1 ur near unfolding lo_def hi_def by blast
qed

text \<open>
  C6. With the identity calibration and the extremes 1000 and 5000 the estimate is 1414.
  In general, when the calibrated minimum is at most the calibrated maximum, the double
  computation followed by \<^verbatim>\<open>round\<close> and the conversion to \<^verbatim>\<open>uint16_t\<close> is defined and
  yields the integer nearest to \<open>((maxMv - minMv) / 2) / 1.4142135\<close> of exact arithmetic:
  the distance is below one half, so the value is rounded, not truncated, and no tie
  occurs.
\<close>

theorem rms_estimate_rounds_to_nearest:
  assumes "raw_to_millivolts cal mn \<le> raw_to_millivolts cal mx"
  shows "rms_estimate (\<lambda>x. x) 1000 5000 = Some 1414
     \<and> (\<exists>r. rms_estimate cal mn mx = Some r
            \<and> uint r = round (rms_formula (raw_to_millivolts cal mn) (raw_to_millivolts cal mx))
            \<and> \<bar>of_int (uint r)
                 - rms_formula (raw_to_millivolts cal mn) (raw_to_millivolts cal mx)\<bar> < 1 / 2)"
  using rms_estimate_fixture rms_estimate_nearest [OF assms] by (rule conjI)

text \<open>
  C6 at the identity calibration with the extremes 0 and 5: the exact quotient is about
  1.77 and the estimate is its nearest integer.
\<close>

theorem rms_estimate_rounds_to_nearest_witness:
  "raw_to_millivolts (\<lambda>x. x) 0 \<le> raw_to_millivolts (\<lambda>x. x) 5
   \<and> rms_estimate (\<lambda>x. x) 1000 5000 = Some 1414
   \<and> (\<exists>r. rms_estimate (\<lambda>x. x) 0 5 = Some r
          \<and> uint r = round (rms_formula (raw_to_millivolts (\<lambda>x. x) 0) (raw_to_millivolts (\<lambda>x. x) 5))
          \<and> \<bar>of_int (uint r)
               - rms_formula (raw_to_millivolts (\<lambda>x. x) 0) (raw_to_millivolts (\<lambda>x. x) 5)\<bar> < 1 / 2)"
proof -
  have h: "raw_to_millivolts (\<lambda>x. x) 0 \<le> raw_to_millivolts (\<lambda>x. x) 5"
    by (simp add: raw_to_millivolts_def)
  show ?thesis using rms_estimate_rounds_to_nearest [OF h] h by blast
qed

section \<open>The acquisition loop\<close>

lemma buffer_size [simp]: "I2S_READ_BUFFER_16B = 1024"
  by (simp add: I2S_READ_BUFFER_16B_def DMA_BUFFER_LEN_def)

lemma length_samples_of: "length (samples_of bs) = length bs div 2"
  by (induction bs rule: samples_of.induct) simp_all

lemma samples_of_pairs:
  "samples_of (concat (replicate n [lo, hi]) @ rest) = replicate n (word_cat hi lo) @ samples_of rest"
  by (induction n) simp_all

lemma read_loop_Cons:
  "read_loop ((s, b) # rs) mem n0 =
     (if s \<noteq> ESP_OK then Read_error rs
      else if (n0 + length (take (2048 - n0) b)) div 2 < 1024
        then read_loop rs
               (take n0 mem @ take (2048 - n0) b @ drop (n0 + length (take (2048 - n0) b)) mem)
               (n0 + length (take (2048 - n0) b))
        else Buffer_full
               (take n0 mem @ take (2048 - n0) b @ drop (n0 + length (take (2048 - n0) b)) mem)
               rs)"
proof -
  have c: "1024 * 2 = (2048 :: nat)" by simp
  show ?thesis
    by (simp only: read_loop.simps i2s_read_def Let_def prod.case fst_conv snd_conv buffer_size c)
qed

lemma read_loop_partial:
  assumes "n0 + length b < 2048"
  shows "read_loop ((ESP_OK, b) # rs) mem n0
         = read_loop rs (take n0 mem @ b @ drop (n0 + length b) mem) (n0 + length b)"
proof -
  have fit: "take (2048 - n0) b = b" using assms by simp
  have small: "(n0 + length b) div 2 < 1024" using assms by simp
  show ?thesis unfolding read_loop_Cons fit using small by simp
qed

lemma read_loop_last:
  assumes "2048 \<le> n0 + length b" and "n0 \<le> 2048" and "length mem = 2048"
  shows "read_loop ((ESP_OK, b) # rs) mem n0
         = Buffer_full (take n0 mem @ take (2048 - n0) b) rs"
proof -
  have l: "length (take (2048 - n0) b) = 2048 - n0" using assms(1) by simp
  have big: "\<not> (n0 + (2048 - n0)) div 2 < 1024" using assms(2) by simp
  have d: "drop (n0 + (2048 - n0)) mem = []" using assms(2,3) by simp
  show ?thesis unfolding read_loop_Cons l using big d by simp
qed

lemma read_loop_fills:
  assumes "list_all (\<lambda>r. fst r = ESP_OK) pre"
    and "length mem = 2048"
    and "n0 + length (concat (map snd pre)) < 2048"
    and "2048 \<le> n0 + length (concat (map snd pre)) + length bytes"
  shows "read_loop (pre @ (ESP_OK, bytes) # rest) mem n0
         = Buffer_full (take n0 mem @ take (2048 - n0) (concat (map snd pre) @ bytes)) rest"
  using assms
proof (induction pre arbitrary: mem n0)
  case Nil
  then show ?case using read_loop_last [of n0 bytes mem rest] by simp
next
  case (Cons r pre)
  obtain e b where r: "r = (e, b)" by (cases r)
  have e: "e = ESP_OK" using Cons.prems(1) r by simp
  have nb: "n0 + length b < 2048" using Cons.prems(3) r by simp
  let ?mem = "take n0 mem @ b @ drop (n0 + length b) mem"
  have len: "length ?mem = 2048" using Cons.prems(2) nb by simp
  have step: "read_loop ((r # pre) @ (ESP_OK, bytes) # rest) mem n0
        = read_loop (pre @ (ESP_OK, bytes) # rest) ?mem (n0 + length b)"
    unfolding r e using read_loop_partial [OF nb] by simp
  have "read_loop (pre @ (ESP_OK, bytes) # rest) ?mem (n0 + length b)
        = Buffer_full (take (n0 + length b) ?mem
            @ take (2048 - (n0 + length b)) (concat (map snd pre) @ bytes)) rest"
    using Cons.prems r len by (intro Cons.IH) simp_all
  moreover have "take (n0 + length b) ?mem = take n0 mem @ b"
    using Cons.prems(2) nb by simp
  moreover have "take (2048 - n0) (concat (map snd (r # pre)) @ bytes)
        = b @ take (2048 - (n0 + length b)) (concat (map snd pre) @ bytes)"
    using nb r by simp
  ultimately show ?case unfolding step by simp
qed

lemma read_loop_aborts:
  assumes "list_all (\<lambda>r. fst r = ESP_OK) pre"
    and "n0 + length (concat (map snd pre)) < 2048"
    and "e \<noteq> ESP_OK"
  shows "read_loop (pre @ (e, bytes) # rest) mem n0 = Read_error rest"
  using assms(1,2)
proof (induction pre arbitrary: mem n0)
  case Nil
  show ?case using assms(3) by (simp add: read_loop_Cons del: read_loop.simps)
next
  case (Cons r pre)
  obtain s b where r: "r = (s, b)" by (cases r)
  have s: "s = ESP_OK" using Cons.prems(1) r by simp
  have nb: "n0 + length b < 2048" using Cons.prems(2) r by simp
  have "read_loop ((r # pre) @ (e, bytes) # rest) mem n0
        = read_loop (pre @ (e, bytes) # rest)
            (take n0 mem @ b @ drop (n0 + length b) mem) (n0 + length b)"
    unfolding r s using read_loop_partial [OF nb] by simp
  also have "\<dots> = Read_error rest"
    using Cons.prems r by (intro Cons.IH) simp_all
  finally show ?case .
qed

lemma read_loop_waits:
  assumes "list_all (\<lambda>r. fst r = ESP_OK) pre"
    and "n0 + length (concat (map snd pre)) < 2048"
  shows "read_loop pre mem n0 = Never_returns"
  using assms
proof (induction pre arbitrary: mem n0)
  case Nil
  show ?case by simp
next
  case (Cons r pre)
  obtain s b where r: "r = (s, b)" by (cases r)
  have s: "s = ESP_OK" using Cons.prems(1) r by simp
  have nb: "n0 + length b < 2048" using Cons.prems(2) r by simp
  have "read_loop (r # pre) mem n0
        = read_loop pre (take n0 mem @ b @ drop (n0 + length b) mem) (n0 + length b)"
    unfolding r s using nb by (rule read_loop_partial)
  also have "\<dots> = Never_returns"
    using Cons.prems r by (intro Cons.IH) simp_all
  finally show ?case .
qed

lemma read_loop_length:
  assumes "read_loop rs mem n0 = Buffer_full mem' rest"
    and "length mem = 2048" and "n0 \<le> 2048"
  shows "length mem' = 2048"
  using assms
proof (induction rs arbitrary: mem n0)
  case Nil
  then show ?case by simp
next
  case (Cons r rs)
  obtain s b where r: "r = (s, b)" by (cases r)
  define got where "got = take (2048 - n0) b"
  define mem2 where "mem2 = take n0 mem @ got @ drop (n0 + length got) mem"
  have gl: "length got \<le> 2048 - n0" unfolding got_def by simp
  have len: "length mem2 = 2048" unfolding mem2_def using Cons.prems(2,3) gl by simp
  have room: "n0 + length got \<le> 2048" using Cons.prems(3) gl by simp
  have step: "read_loop (r # rs) mem n0 =
     (if s \<noteq> ESP_OK then Read_error rs
      else if (n0 + length got) div 2 < 1024 then read_loop rs mem2 (n0 + length got)
      else Buffer_full mem2 rs)"
    unfolding r read_loop_Cons mem2_def got_def ..
  show ?case
  proof (cases "s = ESP_OK")
    case False
    then show ?thesis using Cons.prems(1) unfolding step by simp
  next
    case True
    show ?thesis
    proof (cases "(n0 + length got) div 2 < 1024")
      case True
      then have "read_loop rs mem2 (n0 + length got) = Buffer_full mem' rest"
        using Cons.prems(1) \<open>s = ESP_OK\<close> unfolding step by simp
      then show ?thesis using len room by (rule Cons.IH)
    next
      case False
      then have "mem' = mem2"
        using Cons.prems(1) \<open>s = ESP_OK\<close> unfolding step by simp
      then show ?thesis using len by simp
    qed
  qed
qed

section \<open>The filter on a two-level buffer\<close>

lemma filter_loop_fixpoint:
  assumes "\<And>i. i < length (data s0) \<Longrightarrow> window_median (data s0) h i = data s0 ! i"
    and "k \<le> length (data s0)"
  shows "data (fold (filter_step (length (data s0)) h) [0..<k] s0) = data s0"
  using assms(2)
proof (induction k)
  case 0
  show ?case by simp
next
  case (Suc k)
  let ?s = "fold (filter_step (length (data s0)) h) [0..<k] s0"
  have IH: "data ?s = data s0" using Suc by simp
  have k: "k < length (data ?s)" using Suc.prems IH by simp
  have "data (fold (filter_step (length (data s0)) h) [0..<Suc k] s0)
        = (data ?s)[k := window_median (data ?s) h k]"
    using filter_step_median [OF k, of h] unfolding IH by simp
  also have "\<dots> = (data s0)[k := data s0 ! k]"
    unfolding IH using assms(1) [of k] Suc.prems by simp
  also have "\<dots> = data s0" by (rule list_update_id)
  finally show ?case .
qed

lemma window_median_sorted:
  assumes "sorted buf" and "i < length buf"
  shows "window_median buf h i
         = buf ! ((i - h) + (min (length buf - 1) (i + h) - (i - h) + 1) div 2)"
proof -
  define start where "start = i - h"
  define cs where "cs = min (length buf - 1) (i + h) - start + 1"
  have s1: "nat (max 0 (int i - int h)) = start" unfolding start_def by auto
  have le: "start \<le> length buf" unfolding start_def using assms(2) by simp
  have fits: "start + cs \<le> length buf"
    unfolding cs_def start_def using assms(2) by auto
  have "sorted (take cs (drop start buf))"
    using assms(1) by (simp add: sorted_wrt_take sorted_wrt_drop)
  then have srt: "sort (take cs (drop start buf)) = take cs (drop start buf)"
    by (rule sorted_sort_id)
  have half: "cs div 2 < cs" unfolding cs_def by simp
  have "window_median buf h i = take cs (drop start buf) ! (cs div 2)"
    unfolding window_median_def Let_def s1 cs_def [symmetric] srt ..
  also have "\<dots> = drop start buf ! (cs div 2)" using half by simp
  also have "\<dots> = buf ! (start + cs div 2)" using le by simp
  finally show ?thesis unfolding cs_def start_def .
qed

lemma edge_index:
  fixes m n i :: nat
  assumes "6 \<le> m" and "6 \<le> n" and "i < m + n"
  shows "(i - 5) + (min (m + n - 1) (i + 5) - (i - 5) + 1) div 2 < m + n
     \<and> ((i - 5) + (min (m + n - 1) (i + 5) - (i - 5) + 1) div 2 < m \<longleftrightarrow> i < m)"
proof -
  define idx where "idx = (i - 5) + (min (m + n - 1) (i + 5) - (i - 5) + 1) div 2"
  consider (left) "i < 5" | (mid) "5 \<le> i" "i + 5 \<le> m + n - 1" | (right) "5 \<le> i" "m + n - 1 < i + 5"
    by linarith
  then have "idx < m + n \<and> (idx < m \<longleftrightarrow> i < m)"
  proof cases
    case left
    have "min (m + n - 1) (i + 5) = i + 5" using assms left by simp
    moreover have "i - 5 = 0" using left by simp
    ultimately have "idx = (i + 6) div 2" unfolding idx_def by simp
    then have "idx < 6" using left by linarith
    then show ?thesis using assms left by linarith
  next
    case mid
    have "min (m + n - 1) (i + 5) = i + 5" using mid by simp
    moreover have "i + 5 - (i - 5) + 1 = 11" using mid by simp
    ultimately have "idx = (i - 5) + 11 div 2" unfolding idx_def by simp
    then have "idx = i" using mid by simp
    then show ?thesis using assms by simp
  next
    case right
    define j where "j = m + n - 1 - i"
    have j: "j < 5" "i + j + 1 = m + n" unfolding j_def using right assms by linarith+
    have "min (m + n - 1) (i + 5) = m + n - 1" using right by simp
    moreover have "m + n - 1 - (i - 5) + 1 = j + 6" using right j by linarith
    ultimately have "idx = (i - 5) + (j + 6) div 2" unfolding idx_def by simp
    then have "idx + 5 = i + (j + 6) div 2" using right by linarith
    moreover have "j \<le> (j + 6) div 2" "(j + 6) div 2 \<le> 5" using j(1) by linarith+
    ultimately have "i + j \<le> idx + 5" "idx \<le> i" by linarith+
    then show ?thesis using assms j by linarith
  qed
  then show ?thesis unfolding idx_def .
qed

lemma two_level_fixpoint:
  fixes a b :: uint16
  assumes "a \<le> b" and "6 \<le> m" and "6 \<le> n" and "i < m + n"
  shows "window_median (replicate m a @ replicate n b) 5 i = (replicate m a @ replicate n b) ! i"
proof -
  let ?d = "replicate m a @ replicate n b"
  define idx where "idx = (i - 5) + (min (m + n - 1) (i + 5) - (i - 5) + 1) div 2"
  have srt: "sorted ?d" using assms(1) by (simp add: sorted_append)
  have nth: "?d ! j = (if j < m then a else b)" if "j < m + n" for j
    using that by (simp add: nth_append)
  have ar: "idx < m + n \<and> (idx < m \<longleftrightarrow> i < m)"
    unfolding idx_def using assms(2,3,4) by (rule edge_index)
  have "window_median ?d 5 i = ?d ! idx"
    using window_median_sorted [OF srt, of i 5] assms(4) unfolding idx_def by simp
  also have "\<dots> = ?d ! i" using ar assms(4) by (simp add: nth)
  finally show ?thesis .
qed

lemma two_level_filter:
  fixes a b :: uint16
  assumes "a \<le> b" and "6 \<le> m" and "6 \<le> n"
  shows "median_filter_in_place True (replicate m a @ replicate n b) 10 mn mx =
    \<lparr>data = replicate m a @ replicate n b, min_value = a, max_value = b, ok = True,
     allocs = [Malloc 22 True, Free_window]\<rparr>"
proof -
  let ?d = "replicate m a @ replicate n b"
  let ?init = "\<lparr>data = ?d, min_value = 0xFFFF, max_value = 0, ok = True,
        allocs = [Malloc ((if (10 :: nat) mod 2 = 0 then 10 + 1 else 10) * 2) True]\<rparr>"
  let ?r = "median_filter_in_place True ?d 10 mn mx"
  have w: "10 \<le> length ?d" using assms(2,3) by simp
  have ne: "?d \<noteq> []" using assms(2) by auto
  have fp: "data (fold (filter_step (length (data ?init)) 5) [0..<length (data ?init)] ?init)
             = data ?init"
    by (rule filter_loop_fixpoint) (use assms in \<open>simp_all add: two_level_fixpoint\<close>)
  have r: "?r = (fold (filter_step (length ?d) 5) [0..<length ?d] ?init)
      \<lparr>allocs := [Malloc 22 True, Free_window]\<rparr>"
    using median_filter_success [OF w, of mn mx] by simp
  have d: "data ?r = ?d" unfolding r using fp by simp
  have ex: "ok ?r" "min_value ?r = Min (set (data ?r))" "max_value ?r = Max (set (data ?r))"
    using median_filter_extremes [OF ne w, of mn mx] by simp_all
  have st: "set ?d = {a, b}" using assms(2,3) by auto
  have mn: "min_value ?r = a" unfolding ex(2) d st using assms(1) by simp
  have mx: "max_value ?r = b" unfolding ex(3) d st using assms(1) by simp
  have al: "allocs ?r = [Malloc 22 True, Free_window]" unfolding r by simp
  show ?thesis using d mn mx ex(1) al by (cases ?r) simp
qed

lemma samples_of_two_level:
  "samples_of two_level_bytes = replicate 512 1000 @ replicate 512 5000"
proof -
  have a: "(word_cat (0x03 :: uint8) (0xE8 :: uint8) :: uint16) = 1000"
    by (simp add: word_cat_eq)
  have b: "(word_cat (0x13 :: uint8) (0x88 :: uint8) :: uint16) = 5000"
    by (simp add: word_cat_eq)
  have "samples_of (concat (replicate 512 [0xE8, 0x03 :: uint8])
                    @ (concat (replicate 512 [0x88, 0x13]) @ []))
        = replicate 512 1000 @ replicate 512 5000"
    unfolding samples_of_pairs a b by simp
  then show ?thesis unfolding two_level_bytes_def by simp
qed

lemma raw_to_millivolts_identity: "raw_to_millivolts (\<lambda>x. x) v = v"
  unfolding raw_to_millivolts_def by (simp add: ucast_down_ucast_id is_down)

lemma two_level_acquired:
  "read_loop (i2s_replies two_level_env) (replicate (I2S_READ_BUFFER_16B * 2) 0) 0
   = Buffer_full two_level_bytes []"
proof -
  have l: "length two_level_bytes = 2048"
    unfolding two_level_bytes_def by (simp add: length_concat sum_list_replicate)
  have "read_loop ((ESP_OK, two_level_bytes) # []) (replicate 2048 0) 0
        = Buffer_full (take 0 (replicate 2048 0) @ take (2048 - 0) two_level_bytes) []"
    by (rule read_loop_last) (simp_all add: l)
  then show ?thesis using l by (simp add: two_level_env_def)
qed

lemma two_level_run:
  "zmpt101b_read_voltage two_level_env =
     Returns \<lparr>esp_ret = ESP_OK, rmsVoltage = 1414,
              heap_calls = [Calloc 1024 2 True, Malloc 22 True, Free_window, Free_buffer],
              unread = []\<rparr>"
proof -
  have f: "median_filter_in_place True (samples_of two_level_bytes) 10 0 0 =
      \<lparr>data = replicate 512 1000 @ replicate 512 5000, min_value = 1000, max_value = 5000,
       ok = True, allocs = [Malloc 22 True, Free_window]\<rparr>"
    unfolding samples_of_two_level by (rule two_level_filter) simp_all
  have e: "buffer_alloc_ok two_level_env" "window_alloc_ok two_level_env"
    "raw_to_voltage two_level_env = (\<lambda>x. x)"
    by (simp_all add: two_level_env_def)
  show ?thesis
    unfolding zmpt101b_read_voltage_def two_level_acquired
    by (simp add: e f rms_estimate_fixture)
qed

section \<open>Properties of \<^verbatim>\<open>zmpt101b_read_voltage\<close>\<close>

lemma rms_estimate_equal_extremes: "rms_estimate cal v v = Some 0"
proof -
  have "\<lfloor>1 / 2 :: rat\<rfloor> = 0" by (rule floor_unique) simp_all
  then show ?thesis
    by (simp add: rms_estimate_def rms_double_def double_div_def to_double_def c_round_def)
qed

lemma read_voltage_filled:
  assumes "buffer_alloc_ok env"
    and "read_loop (i2s_replies env) (replicate (I2S_READ_BUFFER_16B * 2) 0) 0
         = Buffer_full mem rest"
    and "rms_estimate (raw_to_voltage env)
           (min_value (median_filter_in_place (window_alloc_ok env) (samples_of mem) 10 0 0))
           (max_value (median_filter_in_place (window_alloc_ok env) (samples_of mem) 10 0 0))
         = Some r"
  shows "zmpt101b_read_voltage env =
     Returns \<lparr>esp_ret = ESP_OK, rmsVoltage = r,
              heap_calls = Calloc I2S_READ_BUFFER_16B 2 True
                # allocs (median_filter_in_place (window_alloc_ok env) (samples_of mem) 10 0 0)
                @ [Free_buffer],
              unread = rest\<rparr>"
  using assms unfolding zmpt101b_read_voltage_def by (simp add: Let_def)

text \<open>
  C7, evaluated on the code. In the two-level capture with the \<^verbatim>\<open>malloc\<close> of the filter
  window failing, the call does not abort: \<^verbatim>\<open>median_filter_in_place\<close> returns \<^verbatim>\<open>false\<close>,
  the caller does not look at it, computes the RMS from the untouched
  \<open>min_value = max_value = 0\<close> and returns \<^verbatim>\<open>ESP_OK\<close> with \<^verbatim>\<open>*rmsVoltage = 0\<close>. (With the
  allocation succeeding the same capture gives 1414.)
\<close>

theorem window_alloc_failure_returns_ok:
  "zmpt101b_read_voltage (two_level_env\<lparr>window_alloc_ok := False\<rparr>) =
     Returns \<lparr>esp_ret = ESP_OK, rmsVoltage = 0,
              heap_calls = [Calloc 1024 2 True, Malloc 22 False, Free_buffer],
              unread = []\<rparr>"
proof -
  let ?env = "two_level_env\<lparr>window_alloc_ok := False\<rparr>"
  have e: "buffer_alloc_ok ?env" "\<not> window_alloc_ok ?env"
    "i2s_replies ?env = i2s_replies two_level_env"
    by (simp_all add: two_level_env_def)
  have acq: "read_loop (i2s_replies ?env) (replicate (I2S_READ_BUFFER_16B * 2) 0) 0
             = Buffer_full two_level_bytes []"
    unfolding e(3) by (rule two_level_acquired)
  have f: "median_filter_in_place (window_alloc_ok ?env) (samples_of two_level_bytes) 10 0 0
           = \<lparr>data = samples_of two_level_bytes, min_value = 0, max_value = 0, ok = False,
              allocs = [Malloc 22 False]\<rparr>"
    using e(2) by (simp add: median_filter_in_place_def samples_of_two_level)
  have r: "rms_estimate (raw_to_voltage ?env)
           (min_value (median_filter_in_place (window_alloc_ok ?env) (samples_of two_level_bytes) 10 0 0))
           (max_value (median_filter_in_place (window_alloc_ok ?env) (samples_of two_level_bytes) 10 0 0))
         = Some 0"
    unfolding f by (simp add: rms_estimate_equal_extremes)
  show ?thesis
    using read_voltage_filled [OF e(1) acq r] unfolding f by simp
qed

text \<open>
  C8. Let the first answers of the peripheral all be successful and deliver, together,
  fewer than \<open>2 * 1024\<close> bytes (some of them possibly none at all). Then the loop has not
  finished on them: with no further answer it remains blocked in \<^verbatim>\<open>i2s_read\<close>. If the next
  answer is successful and reaches the byte count, the loop ends there with the buffer
  holding exactly the first \<open>2 * 1024\<close> bytes delivered, in order, that is exactly 1024
  samples, and later answers are not consumed. If the next answer is an error, the
  loop ends there, and \<^verbatim>\<open>zmpt101b_read_voltage\<close> frees the sample buffer and returns
  \<^verbatim>\<open>ESP_ERR_INVALID_SIZE\<close> with \<^verbatim>\<open>*rmsVoltage = 0\<close>, without reading further and without
  calling the filter.
\<close>

theorem acquisition_accumulates_or_aborts:
  assumes "list_all (\<lambda>r. fst r = ESP_OK) pre"
    and "length (concat (map snd pre)) < I2S_READ_BUFFER_16B * 2"
  shows "read_loop pre (replicate (I2S_READ_BUFFER_16B * 2) 0) 0 = Never_returns
    \<and> (I2S_READ_BUFFER_16B * 2 \<le> length (concat (map snd pre)) + length bytes \<longrightarrow>
         read_loop (pre @ (ESP_OK, bytes) # rest) (replicate (I2S_READ_BUFFER_16B * 2) 0) 0
           = Buffer_full (take (I2S_READ_BUFFER_16B * 2) (concat (map snd pre) @ bytes)) rest
         \<and> length (samples_of (take (I2S_READ_BUFFER_16B * 2) (concat (map snd pre) @ bytes)))
           = I2S_READ_BUFFER_16B)
    \<and> (e \<noteq> ESP_OK \<longrightarrow>
         read_loop (pre @ (e, bytes) # rest) (replicate (I2S_READ_BUFFER_16B * 2) 0) 0
           = Read_error rest
         \<and> zmpt101b_read_voltage
             \<lparr>buffer_alloc_ok = True, window_alloc_ok = w,
              i2s_replies = pre @ (e, bytes) # rest, raw_to_voltage = cal\<rparr>
           = Returns \<lparr>esp_ret = ESP_ERR_INVALID_SIZE, rmsVoltage = 0,
                      heap_calls = [Calloc I2S_READ_BUFFER_16B 2 True, Free_buffer],
                      unread = rest\<rparr>)"
proof (intro conjI impI)
  have c: "I2S_READ_BUFFER_16B * 2 = 2048" by simp
  have less: "0 + length (concat (map snd pre)) < 2048" using assms(2) by simp
  show "read_loop pre (replicate (I2S_READ_BUFFER_16B * 2) 0) 0 = Never_returns"
    using assms(1) less by (rule read_loop_waits)
  {
    assume full: "I2S_READ_BUFFER_16B * 2 \<le> length (concat (map snd pre)) + length bytes"
    then have ge: "2048 \<le> 0 + length (concat (map snd pre)) + length bytes" by simp
    have len: "length (replicate (I2S_READ_BUFFER_16B * 2) (0 :: uint8)) = 2048" by simp
    show "read_loop (pre @ (ESP_OK, bytes) # rest) (replicate (I2S_READ_BUFFER_16B * 2) 0) 0
           = Buffer_full (take (I2S_READ_BUFFER_16B * 2) (concat (map snd pre) @ bytes)) rest"
      using read_loop_fills [OF assms(1) len less ge, of rest] by simp
    show "length (samples_of (take (I2S_READ_BUFFER_16B * 2) (concat (map snd pre) @ bytes)))
           = I2S_READ_BUFFER_16B"
      using full by (simp add: length_samples_of)
  }
  {
    assume err: "e \<noteq> ESP_OK"
    show abort: "read_loop (pre @ (e, bytes) # rest) (replicate (I2S_READ_BUFFER_16B * 2) 0) 0
           = Read_error rest"
      using assms(1) less err by (rule read_loop_aborts)
    show "zmpt101b_read_voltage
             \<lparr>buffer_alloc_ok = True, window_alloc_ok = w,
              i2s_replies = pre @ (e, bytes) # rest, raw_to_voltage = cal\<rparr>
           = Returns \<lparr>esp_ret = ESP_ERR_INVALID_SIZE, rmsVoltage = 0,
                      heap_calls = [Calloc I2S_READ_BUFFER_16B 2 True, Free_buffer],
                      unread = rest\<rparr>"
      unfolding zmpt101b_read_voltage_def using abort by simp
  }
qed

text \<open>
  C8 at the answers of 1000 bytes, 0 bytes and 2 bytes, followed by an answer of 2000
  bytes (of which 1046 are stored) or by an error.
\<close>

theorem acquisition_accumulates_or_aborts_witness:
  "list_all (\<lambda>r. fst r = ESP_OK)
     [(ESP_OK, replicate 1000 (1 :: uint8)), (ESP_OK, []), (ESP_OK, [2, 3])]
   \<and> length (concat (map snd [(ESP_OK, replicate 1000 (1 :: uint8)), (ESP_OK, []), (ESP_OK, [2, 3])]))
       < I2S_READ_BUFFER_16B * 2
   \<and> I2S_READ_BUFFER_16B * 2
       \<le> length (concat (map snd [(ESP_OK, replicate 1000 (1 :: uint8)), (ESP_OK, []), (ESP_OK, [2, 3])]))
         + length (replicate 2000 (7 :: uint8))
   \<and> ESP_FAIL \<noteq> ESP_OK
   \<and> read_loop [(ESP_OK, replicate 1000 1), (ESP_OK, []), (ESP_OK, [2, 3])]
         (replicate (I2S_READ_BUFFER_16B * 2) 0) 0 = Never_returns
   \<and> read_loop ([(ESP_OK, replicate 1000 1), (ESP_OK, []), (ESP_OK, [2, 3])]
                  @ (ESP_OK, replicate 2000 7) # [(ESP_FAIL, [])])
         (replicate (I2S_READ_BUFFER_16B * 2) 0) 0
       = Buffer_full (take (I2S_READ_BUFFER_16B * 2)
           (concat (map snd [(ESP_OK, replicate 1000 1), (ESP_OK, []), (ESP_OK, [2, 3])])
            @ replicate 2000 7)) [(ESP_FAIL, [])]
   \<and> zmpt101b_read_voltage
         \<lparr>buffer_alloc_ok = True, window_alloc_ok = True,
          i2s_replies = [(ESP_OK, replicate 1000 1), (ESP_OK, []), (ESP_OK, [2, 3])]
                        @ (ESP_FAIL, replicate 2000 7) # [(ESP_FAIL, [])],
          raw_to_voltage = (\<lambda>x. x)\<rparr>
       = Returns \<lparr>esp_ret = ESP_ERR_INVALID_SIZE, rmsVoltage = 0,
                  heap_calls = [Calloc I2S_READ_BUFFER_16B 2 True, Free_buffer],
                  unread = [(ESP_FAIL, [])]\<rparr>"
proof -
  let ?pre = "[(ESP_OK, replicate 1000 (1 :: uint8)), (ESP_OK, []), (ESP_OK, [2, 3])]"
  have h1: "list_all (\<lambda>r. fst r = ESP_OK) ?pre" by simp
  have h2: "length (concat (map snd ?pre)) < I2S_READ_BUFFER_16B * 2" by simp
  have h3: "I2S_READ_BUFFER_16B * 2
       \<le> length (concat (map snd ?pre)) + length (replicate 2000 (7 :: uint8))" by simp
  have h4: "ESP_FAIL \<noteq> ESP_OK" by simp
  note t = acquisition_accumulates_or_aborts [OF h1 h2]
  have a: "read_loop ?pre (replicate (I2S_READ_BUFFER_16B * 2) 0) 0 = Never_returns"
    using t by (rule conjunct1)
  have b: "read_loop (?pre @ (ESP_OK, replicate 2000 7) # [(ESP_FAIL, [])])
         (replicate (I2S_READ_BUFFER_16B * 2) 0) 0
       = Buffer_full (take (I2S_READ_BUFFER_16B * 2)
           (concat (map snd ?pre) @ replicate 2000 7)) [(ESP_FAIL, [])]"
    using t [of "replicate 2000 7" "[(ESP_FAIL, [])]"] h3 by blast
  have c: "zmpt101b_read_voltage
         \<lparr>buffer_alloc_ok = True, window_alloc_ok = True,
          i2s_replies = ?pre @ (ESP_FAIL, replicate 2000 7) # [(ESP_FAIL, [])],
          raw_to_voltage = (\<lambda>x. x)\<rparr>
       = Returns \<lparr>esp_ret = ESP_ERR_INVALID_SIZE, rmsVoltage = 0,
                  heap_calls = [Calloc I2S_READ_BUFFER_16B 2 True, Free_buffer],
                  unread = [(ESP_FAIL, [])]\<rparr>"
    using t [of "replicate 2000 7" "[(ESP_FAIL, [])]" ESP_FAIL True "\<lambda>x. x"] h4 by blast
  show ?thesis using h1 h2 h3 h4 a b c by (intro conjI)
qed

text \<open>
  C9, as amended. When the sample buffer is allocated, the acquisition completes, and
  the calibrated minimum is at most the calibrated maximum, the call returns \<^verbatim>\<open>ESP_OK\<close>
  and stores in \<^verbatim>\<open>*rmsVoltage\<close> the integer nearest to
  \<open>((maxMv - minMv) / 2) / 1.4142135\<close>, where \<open>minMv\<close> and \<open>maxMv\<close> are the millivolt values
  the calibration curve gives for the filtered extremes: the stored number is in the
  unit of the calibration curve, millivolts, and is not divided by 1000.
\<close>

theorem read_voltage_stores_millivolt_rms:
  assumes "buffer_alloc_ok env"
    and "read_loop (i2s_replies env) (replicate (I2S_READ_BUFFER_16B * 2) 0) 0
         = Buffer_full mem rest"
    and "raw_to_millivolts (raw_to_voltage env)
           (min_value (median_filter_in_place (window_alloc_ok env) (samples_of mem) 10 0 0))
         \<le> raw_to_millivolts (raw_to_voltage env)
           (max_value (median_filter_in_place (window_alloc_ok env) (samples_of mem) 10 0 0))"
  shows "\<exists>res. zmpt101b_read_voltage env = Returns res \<and> esp_ret res = ESP_OK
     \<and> uint (rmsVoltage res) = round (rms_formula
           (raw_to_millivolts (raw_to_voltage env)
             (min_value (median_filter_in_place (window_alloc_ok env) (samples_of mem) 10 0 0)))
           (raw_to_millivolts (raw_to_voltage env)
             (max_value (median_filter_in_place (window_alloc_ok env) (samples_of mem) 10 0 0))))"
proof -
  obtain r where r: "rms_estimate (raw_to_voltage env)
           (min_value (median_filter_in_place (window_alloc_ok env) (samples_of mem) 10 0 0))
           (max_value (median_filter_in_place (window_alloc_ok env) (samples_of mem) 10 0 0))
         = Some r"
    and u: "uint r = round (rms_formula
           (raw_to_millivolts (raw_to_voltage env)
             (min_value (median_filter_in_place (window_alloc_ok env) (samples_of mem) 10 0 0)))
           (raw_to_millivolts (raw_to_voltage env)
             (max_value (median_filter_in_place (window_alloc_ok env) (samples_of mem) 10 0 0))))"
    using rms_estimate_nearest [OF assms(3)] by blast
  show ?thesis
    using read_voltage_filled [OF assms(1,2) r] u by simp
qed

lemma two_level_extremes:
  "min_value (median_filter_in_place (window_alloc_ok two_level_env)
     (samples_of two_level_bytes) 10 0 0) = 1000"
  "max_value (median_filter_in_place (window_alloc_ok two_level_env)
     (samples_of two_level_bytes) 10 0 0) = 5000"
proof -
  have f: "median_filter_in_place True (samples_of two_level_bytes) 10 0 0 =
      \<lparr>data = replicate 512 1000 @ replicate 512 5000, min_value = 1000, max_value = 5000,
       ok = True, allocs = [Malloc 22 True, Free_window]\<rparr>"
    unfolding samples_of_two_level by (rule two_level_filter) simp_all
  have w: "window_alloc_ok two_level_env" by (simp add: two_level_env_def)
  show "min_value (median_filter_in_place (window_alloc_ok two_level_env)
     (samples_of two_level_bytes) 10 0 0) = 1000"
    using w f by simp
  show "max_value (median_filter_in_place (window_alloc_ok two_level_env)
     (samples_of two_level_bytes) 10 0 0) = 5000"
    using w f by simp
qed

text \<open>
  The amended C9 at the two-level capture: the filtered extremes are 1000 and 5000.
\<close>

theorem read_voltage_stores_millivolt_rms_witness:
  "buffer_alloc_ok two_level_env
   \<and> read_loop (i2s_replies two_level_env) (replicate (I2S_READ_BUFFER_16B * 2) 0) 0
       = Buffer_full two_level_bytes []
   \<and> (\<exists>res. zmpt101b_read_voltage two_level_env = Returns res \<and> esp_ret res = ESP_OK
        \<and> uint (rmsVoltage res) = round (rms_formula 1000 5000))"
proof -
  have h1: "buffer_alloc_ok two_level_env" by (simp add: two_level_env_def)
  have cal: "raw_to_voltage two_level_env = (\<lambda>x. x)" by (simp add: two_level_env_def)
  have h3: "raw_to_millivolts (raw_to_voltage two_level_env)
           (min_value (median_filter_in_place (window_alloc_ok two_level_env)
             (samples_of two_level_bytes) 10 0 0))
         \<le> raw_to_millivolts (raw_to_voltage two_level_env)
           (max_value (median_filter_in_place (window_alloc_ok two_level_env)
             (samples_of two_level_bytes) 10 0 0))"
    unfolding two_level_extremes cal raw_to_millivolts_identity by simp
  show ?thesis
    using read_voltage_stores_millivolt_rms [OF h1 two_level_acquired h3] h1 two_level_acquired
    unfolding two_level_extremes cal raw_to_millivolts_identity by blast
qed

text \<open>
  C9 as stated fails. In the two-level capture the calibrated extremes are 1000 mV and
  5000 mV; the RMS estimate is about 1414.2 mV, which is 1 in whole volts, and the call
  stores 1414.
\<close>

theorem whole_volts_counterexample:
  "zmpt101b_read_voltage two_level_env =
     Returns \<lparr>esp_ret = ESP_OK, rmsVoltage = 1414,
              heap_calls = [Calloc 1024 2 True, Malloc 22 True, Free_window, Free_buffer],
              unread = []\<rparr>
   \<and> whole_volts (rms_formula
        (raw_to_millivolts (raw_to_voltage two_level_env)
          (min_value (median_filter_in_place (window_alloc_ok two_level_env)
            (samples_of two_level_bytes) 10 0 0)))
        (raw_to_millivolts (raw_to_voltage two_level_env)
          (max_value (median_filter_in_place (window_alloc_ok two_level_env)
            (samples_of two_level_bytes) 10 0 0)))) = 1
   \<and> uint (1414 :: uint16) \<noteq> 1"
proof -
  have cal: "raw_to_voltage two_level_env = (\<lambda>x. x)" by (simp add: two_level_env_def)
  have "whole_volts (rms_formula 1000 5000) = 1"
    by (simp add: whole_volts_def rms_formula_def round_def floor_rat_numeral)
  then show ?thesis
    unfolding two_level_extremes cal raw_to_millivolts_identity
    using two_level_run by simp
qed

end
